theory Spec2Isabelle
  imports Complex_Main "HOL-Library.Multiset"
begin

section \<open>Pauli values, gadgets and polynomials\<close>

text \<open>
  The enumeration \<open>Pauli\<close> of \<open>pauliopt.pauli.utils\<close>, the class \<open>PauliGadget\<close> of
  \<open>pauli_gadget.py\<close> (an angle and a list of Pauli values) and the class
  \<open>PauliPolynomial\<close> of \<open>pauli_polynomial.py\<close> (a qubit count and a list of gadgets).
  The constructor of \<open>PauliGadget\<close> declares the angle as an \<open>AngleExpr\<close> of
  \<open>pauliopt.utils\<close>, which is not among the sources. Angles are read as real numbers:
  \<open>+\<close> is the exact sum (a sum of Python floats would be rounded), and the constant
  \<open>2 * np.pi\<close> of the source is \<open>2 * pi\<close>. Every exception the Python raises is a value
  of \<open>error\<close>.
\<close>

datatype Pauli = I | X | Y | Z

datatype error = Exception | TypeError | ValueError | KeyError | IndexError | AssertionError

record PauliGadget =
  angle :: real
  paulis :: "Pauli list"

record PauliPolynomial =
  num_qubits :: nat
  pauli_gadgets :: "PauliGadget list"

text \<open>\<open>PauliGadget.copy\<close>: a new gadget with the same angle and a copy of the Pauli list.\<close>

definition copy :: "PauliGadget \<Rightarrow> PauliGadget" where
  "copy g = \<lparr>angle = angle g, paulis = paulis g\<rparr>"

text \<open>
  \<open>PauliGadget.commutes\<close>: raises when the two Pauli lists differ in length, otherwise
  counts the positions where both entries are non-identity and different.
\<close>

definition commutes :: "PauliGadget \<Rightarrow> PauliGadget \<Rightarrow> error + bool" where
  "commutes g other =
     (if length (paulis g) \<noteq> length (paulis other) then Inl Exception
      else Inr (length (filter (\<lambda>(p_1, p_2). p_1 \<noteq> p_2 \<and> p_1 \<noteq> I \<and> p_2 \<noteq> I)
                          (zip (paulis g) (paulis other))) mod 2 = 0))"

text \<open>\<open>PauliPolynomial.__irshift__\<close> (\<open>pp >>= gadget\<close>): append, after the length check.\<close>

definition irshift :: "PauliPolynomial \<Rightarrow> PauliGadget \<Rightarrow> error + PauliPolynomial" where
  "irshift pp gadget =
     (if \<not> length (paulis gadget) = num_qubits pp then Inl Exception
      else Inr (pp\<lparr>pauli_gadgets := pauli_gadgets pp @ [gadget]\<rparr>))"

section \<open>Simplification of a Pauli polynomial\<close>

definition remove_collapsed_pauli_gadegts :: "PauliGadget list \<Rightarrow> PauliGadget list" where
  "remove_collapsed_pauli_gadegts remaining_poly =
     filter (\<lambda>x. angle x \<noteq> 2 * pi \<and> angle x \<noteq> 0) remaining_poly"

text \<open>
  \<open>find_machting_parity_right\<close>: the first gadget right of \<open>idx\<close> whose Pauli list agrees
  with that of gadget \<open>idx\<close> on every zipped position (\<open>zip\<close> stops at the shorter list).
\<close>

definition same_paulis :: "PauliGadget \<Rightarrow> PauliGadget \<Rightarrow> bool" where
  "same_paulis gadget gadget_right =
     list_all (\<lambda>(p_1, p_2). p_1 = p_2) (zip (paulis gadget) (paulis gadget_right))"

fun first_index :: "('a \<Rightarrow> bool) \<Rightarrow> 'a list \<Rightarrow> nat option" where
  "first_index P [] = None"
| "first_index P (x # xs) = (if P x then Some 0 else map_option Suc (first_index P xs))"

definition find_machting_parity_right :: "nat \<Rightarrow> PauliGadget list \<Rightarrow> error + nat option" where
  "find_machting_parity_right idx remaining_poly =
     (if idx < length remaining_poly
      then Inr (map_option (\<lambda>idx_right. idx + idx_right + 1)
                  (first_index (same_paulis (remaining_poly ! idx)) (drop (idx + 1) remaining_poly)))
      else Inl IndexError)"

text \<open>
  \<open>is_commuting_region\<close>: gadget \<open>idx\<close> is compared with every gadget \<open>k\<close> of
  \<open>range(idx, idx_right)\<close>, itself included; the loop stops at the first that does not
  commute, and an exception of \<open>commutes\<close> or of an index out of range ends it.
\<close>

fun commuting_loop :: "PauliGadget list \<Rightarrow> nat \<Rightarrow> nat list \<Rightarrow> error + bool" where
  "commuting_loop remaining_poly idx [] = Inr True"
| "commuting_loop remaining_poly idx (k # ks) =
     (if idx < length remaining_poly \<and> k < length remaining_poly
      then (case commutes (remaining_poly ! idx) (remaining_poly ! k) of
              Inl e \<Rightarrow> Inl e
            | Inr c \<Rightarrow> if \<not> c then Inr False else commuting_loop remaining_poly idx ks)
      else Inl IndexError)"

definition is_commuting_region :: "nat \<Rightarrow> nat \<Rightarrow> PauliGadget list \<Rightarrow> error + bool" where
  "is_commuting_region idx idx_right remaining_poly =
     commuting_loop remaining_poly idx [idx..<idx_right]"

text \<open>
  The body of the loop of \<open>propagate_phase_gadegts\<close> at index \<open>idx\<close>. The state is the
  flag \<open>converged\<close> and the list, whose gadgets the Python updates in place: the angle of
  gadget \<open>idx\<close> is added to gadget \<open>idx_right\<close>, then gadget \<open>idx\<close> gets the angle 0.
\<close>

definition merge_gadgets :: "nat \<Rightarrow> nat \<Rightarrow> PauliGadget list \<Rightarrow> PauliGadget list" where
  "merge_gadgets idx idx_right remaining_poly =
     (let rp = remaining_poly[idx_right :=
                 (remaining_poly ! idx_right)
                   \<lparr>angle := angle (remaining_poly ! idx_right) + angle (remaining_poly ! idx)\<rparr>]
      in rp[idx := (rp ! idx)\<lparr>angle := 0\<rparr>])"

definition propagate_step ::
  "nat \<Rightarrow> bool \<times> PauliGadget list \<Rightarrow> error + bool \<times> PauliGadget list" where
  "propagate_step idx s =
     (case s of (converged, remaining_poly) \<Rightarrow>
        (case find_machting_parity_right idx remaining_poly of
           Inl e \<Rightarrow> Inl e
         | Inr None \<Rightarrow> Inr (converged, remaining_poly)
         | Inr (Some idx_right) \<Rightarrow>
             (case is_commuting_region idx idx_right remaining_poly of
                Inl e \<Rightarrow> Inl e
              | Inr c \<Rightarrow>
                  if \<not> c then Inr (converged, remaining_poly)
                  else Inr (False, merge_gadgets idx idx_right remaining_poly))))"

fun propagate_loop ::
  "nat list \<Rightarrow> bool \<times> PauliGadget list \<Rightarrow> error + bool \<times> PauliGadget list" where
  "propagate_loop [] s = Inr s"
| "propagate_loop (idx # idxs) s =
     (case propagate_step idx s of Inl e \<Rightarrow> Inl e | Inr s' \<Rightarrow> propagate_loop idxs s')"

text \<open>
  \<open>propagate_phase_gadegts\<close>: one pass over \<open>enumerate(remaining_poly)\<close>; the result is
  the flag and the list after the in-place updates.
\<close>

definition propagate_phase_gadegts :: "PauliGadget list \<Rightarrow> error + bool \<times> PauliGadget list" where
  "propagate_phase_gadegts remaining_poly =
     propagate_loop [0..<length remaining_poly] (True, remaining_poly)"


subsection \<open>Facts about one pass\<close>

lemma first_index_Some:
  "first_index P xs = Some i \<Longrightarrow> i < length xs \<and> P (xs ! i)"
proof (induction xs arbitrary: i)
  case Nil
  then show ?case by simp
next
  case (Cons x xs)
  then show ?case by (auto split: if_splits)
qed

lemma first_index_None:
  "first_index P xs = None \<Longrightarrow> \<forall>x \<in> set xs. \<not> P x"
  by (induction xs) (auto split: if_splits)

lemma find_right_bounds:
  assumes "find_machting_parity_right idx rp = Inr (Some r)"
  shows "idx < r \<and> r < length rp"
  using assms first_index_Some
  by (fastforce simp: find_machting_parity_right_def split: if_splits)

lemma length_merge_gadgets [simp]: "length (merge_gadgets i r rp) = length rp"
  by (simp add: merge_gadgets_def Let_def)

lemma merge_gadgets_other:
  "j \<noteq> i \<Longrightarrow> j \<noteq> r \<Longrightarrow> merge_gadgets i r rp ! j = rp ! j"
  by (simp add: merge_gadgets_def Let_def)

lemma merge_gadgets_zero:
  "i < length rp \<Longrightarrow> angle (merge_gadgets i r rp ! i) = 0"
  by (simp add: merge_gadgets_def Let_def)

lemma propagate_step_cases:
  assumes "propagate_step idx (c, rp) = Inr (c', rp')"
  shows "(c' = c \<and> rp' = rp) \<or>
         (\<exists>r. find_machting_parity_right idx rp = Inr (Some r) \<and>
              is_commuting_region idx r rp = Inr True \<and>
              c' = False \<and> rp' = merge_gadgets idx r rp)"
  using assms
  by (auto simp: propagate_step_def split: sum.splits option.splits if_splits)

lemma propagate_step_length:
  "propagate_step idx (c, rp) = Inr (c', rp') \<Longrightarrow> length rp' = length rp"
  by (drule propagate_step_cases) auto

lemma propagate_step_below:
  "propagate_step idx (c, rp) = Inr (c', rp') \<Longrightarrow> j < idx \<Longrightarrow> rp' ! j = rp ! j"
  by (drule propagate_step_cases) (auto dest!: find_right_bounds simp: merge_gadgets_other)

lemma propagate_step_True:
  "propagate_step idx (c, rp) = Inr (True, rp') \<Longrightarrow> c \<and> rp' = rp"
  by (drule propagate_step_cases) auto

lemma propagate_step_False:
  "propagate_step idx (c, rp) = Inr (False, rp') \<Longrightarrow>
     \<not> c \<or> (idx < length rp' \<and> angle (rp' ! idx) = 0)"
  by (drule propagate_step_cases) (auto dest!: find_right_bounds simp: merge_gadgets_zero)

lemma propagate_loop_length:
  "propagate_loop idxs (c, rp) = Inr (c', rp') \<Longrightarrow> length rp' = length rp"
proof (induction idxs arbitrary: c rp)
  case Nil
  then show ?case by simp
next
  case (Cons idx idxs)
  then show ?case
    by (fastforce split: sum.splits dest: propagate_step_length)
qed

lemma propagate_loop_below:
  "propagate_loop idxs (c, rp) = Inr (c', rp') \<Longrightarrow> \<forall>k \<in> set idxs. j < k \<Longrightarrow> rp' ! j = rp ! j"
proof (induction idxs arbitrary: c rp)
  case Nil
  then show ?case by simp
next
  case (Cons idx idxs)
  from Cons.prems(1) obtain c1 rp1 where
    s: "propagate_step idx (c, rp) = Inr (c1, rp1)" and
    l: "propagate_loop idxs (c1, rp1) = Inr (c', rp')"
    by (auto split: sum.splits)
  have "rp' ! j = rp1 ! j" using Cons.IH [OF l] Cons.prems(2) by simp
  moreover have "rp1 ! j = rp ! j" using propagate_step_below [OF s] Cons.prems(2) by simp
  ultimately show ?case by simp
qed

lemma propagate_loop_True:
  "propagate_loop idxs (c, rp) = Inr (True, rp') \<Longrightarrow> c \<and> rp' = rp"
proof (induction idxs arbitrary: c rp)
  case Nil
  then show ?case by simp
next
  case (Cons idx idxs)
  from Cons.prems obtain c1 rp1 where
    s: "propagate_step idx (c, rp) = Inr (c1, rp1)" and
    l: "propagate_loop idxs (c1, rp1) = Inr (True, rp')"
    by (auto split: sum.splits)
  from Cons.IH [OF l] have c1: "c1" and eq: "rp' = rp1" by simp_all
  from s c1 have "propagate_step idx (c, rp) = Inr (True, rp1)" by simp
  from propagate_step_True [OF this] eq show ?case by simp
qed

lemma propagate_loop_False:
  "propagate_loop idxs (c, rp) = Inr (False, rp') \<Longrightarrow> sorted_wrt (<) idxs \<Longrightarrow>
     \<not> c \<or> (\<exists>j \<in> set idxs. j < length rp' \<and> angle (rp' ! j) = 0)"
proof (induction idxs arbitrary: c rp)
  case Nil
  then show ?case by simp
next
  case (Cons idx idxs)
  from Cons.prems(1) obtain c1 rp1 where
    s: "propagate_step idx (c, rp) = Inr (c1, rp1)" and
    l: "propagate_loop idxs (c1, rp1) = Inr (False, rp')"
    by (auto split: sum.splits)
  from Cons.prems(2) have srt: "sorted_wrt (<) idxs" and above: "\<forall>k \<in> set idxs. idx < k"
    by simp_all
  show ?case
  proof (cases c1)
    case True
    with Cons.IH [OF l srt] show ?thesis by auto
  next
    case False
    with s have "propagate_step idx (c, rp) = Inr (False, rp1)" by simp
    from propagate_step_False [OF this]
    have "\<not> c \<or> (idx < length rp1 \<and> angle (rp1 ! idx) = 0)" .
    moreover have "rp' ! idx = rp1 ! idx" using propagate_loop_below [OF l above] .
    moreover have "length rp' = length rp1" using propagate_loop_length [OF l] .
    ultimately show ?thesis by auto
  qed
qed

lemma propagate_phase_gadegts_length:
  "propagate_phase_gadegts rp = Inr (c, rp') \<Longrightarrow> length rp' = length rp"
  unfolding propagate_phase_gadegts_def by (rule propagate_loop_length)

lemma propagate_phase_gadegts_converged:
  "propagate_phase_gadegts rp = Inr (True, rp') \<Longrightarrow> rp' = rp"
  unfolding propagate_phase_gadegts_def by (drule propagate_loop_True) simp

lemma propagate_phase_gadegts_zero:
  assumes "propagate_phase_gadegts rp = Inr (False, rp')"
  shows "\<exists>g \<in> set rp'. angle g = 0"
proof -
  have "sorted_wrt (<) [0..<length rp]" by simp
  with assms propagate_loop_False [of "[0..<length rp]" True rp rp']
  obtain j where "j < length rp'" "angle (rp' ! j) = 0"
    unfolding propagate_phase_gadegts_def by auto
  then show ?thesis using nth_mem by blast
qed

lemma remove_collapsed_shrinks:
  "\<exists>g \<in> set rp. angle g = 0 \<Longrightarrow> length (remove_collapsed_pauli_gadegts rp) < length rp"
  unfolding remove_collapsed_pauli_gadegts_def
  by (metis (mono_tags, lifting) length_filter_less)


subsection \<open>The loop of simplification\<close>

function simplify_loop :: "PauliGadget list \<Rightarrow> error + PauliGadget list" where
  "simplify_loop remaining_poly =
     (let remaining_poly1 = remove_collapsed_pauli_gadegts remaining_poly in
      case propagate_phase_gadegts remaining_poly1 of
        Inl e \<Rightarrow> Inl e
      | Inr (converged, remaining_poly2) \<Rightarrow>
          if converged then Inr remaining_poly2 else simplify_loop remaining_poly2)"
  by pat_completeness auto
termination
proof (relation "measure (\<lambda>rp. length (remove_collapsed_pauli_gadegts rp))")
  show "wf (measure (\<lambda>rp. length (remove_collapsed_pauli_gadegts rp)))" by simp
next
  fix remaining_poly remaining_poly1 :: "PauliGadget list" and x2 converged remaining_poly2
  assume r1: "remaining_poly1 = remove_collapsed_pauli_gadegts remaining_poly"
    and p: "propagate_phase_gadegts remaining_poly1 = Inr x2"
    and x: "(converged, remaining_poly2) = x2"
    and c: "\<not> converged"
  from p x c have q: "propagate_phase_gadegts remaining_poly1 = Inr (False, remaining_poly2)"
    by auto
  have "length (remove_collapsed_pauli_gadegts remaining_poly2) < length remaining_poly2"
    using propagate_phase_gadegts_zero [OF q] by (rule remove_collapsed_shrinks)
  also have "length remaining_poly2 = length remaining_poly1"
    using propagate_phase_gadegts_length [OF q] .
  finally show "(remaining_poly2, remaining_poly)
      \<in> measure (\<lambda>rp. length (remove_collapsed_pauli_gadegts rp))"
    using r1 by simp
qed

declare simplify_loop.simps [simp del]

fun irshift_all :: "PauliPolynomial \<Rightarrow> PauliGadget list \<Rightarrow> error + PauliPolynomial" where
  "irshift_all pp0 [] = Inr pp0"
| "irshift_all pp0 (gadget # gadgets) =
     (case irshift pp0 gadget of Inl e \<Rightarrow> Inl e | Inr pp1 \<Rightarrow> irshift_all pp1 gadgets)"

definition simplify_pauli_polynomial :: "PauliPolynomial \<Rightarrow> error + PauliPolynomial" where
  "simplify_pauli_polynomial pp =
     (case simplify_loop (map copy (pauli_gadgets pp)) of
        Inl e \<Rightarrow> Inl e
      | Inr remaining_poly \<Rightarrow>
          irshift_all \<lparr>num_qubits = num_qubits pp, pauli_gadgets = []\<rparr> remaining_poly)"

lemma copy_id [simp]: "copy g = g"
  by (simp add: copy_def)

lemma map_copy [simp]: "map copy gs = gs"
  by (induction gs) simp_all

lemma irshift_all_Inr:
  "irshift_all pp0 gs = Inr pp' \<Longrightarrow>
     pp' = pp0\<lparr>pauli_gadgets := pauli_gadgets pp0 @ gs\<rparr> \<and>
     (\<forall>g \<in> set gs. length (paulis g) = num_qubits pp0)"
proof (induction gs arbitrary: pp0)
  case Nil
  then show ?case by simp
next
  case (Cons g gs)
  from Cons.prems obtain pp1 where
    a: "irshift pp0 g = Inr pp1" and b: "irshift_all pp1 gs = Inr pp'"
    by (auto split: sum.splits)
  from a have pp1: "pp1 = pp0\<lparr>pauli_gadgets := pauli_gadgets pp0 @ [g]\<rparr>"
    and len: "length (paulis g) = num_qubits pp0"
    by (auto simp: irshift_def split: if_splits)
  from Cons.IH [OF b] pp1 len show ?case by simp
qed

lemma irshift_all_ok:
  "\<forall>g \<in> set gs. length (paulis g) = num_qubits pp0 \<Longrightarrow>
     irshift_all pp0 gs = Inr (pp0\<lparr>pauli_gadgets := pauli_gadgets pp0 @ gs\<rparr>)"
proof (induction gs arbitrary: pp0)
  case Nil
  then show ?case by simp
next
  case (Cons g gs)
  then show ?case by (simp add: irshift_def)
qed

lemma remove_collapsed_idem [simp]:
  "remove_collapsed_pauli_gadegts (remove_collapsed_pauli_gadegts rp) =
     remove_collapsed_pauli_gadegts rp"
  by (simp add: remove_collapsed_pauli_gadegts_def)

text \<open>What the loop returns is a fixed point of both of its steps.\<close>

lemma simplify_loop_fixed:
  "simplify_loop rp = Inr res \<Longrightarrow>
     remove_collapsed_pauli_gadegts res = res \<and> propagate_phase_gadegts res = Inr (True, res)"
proof (induction rp rule: simplify_loop.induct)
  case (1 remaining_poly)
  let ?rp1 = "remove_collapsed_pauli_gadegts remaining_poly"
  from "1.prems" obtain converged rp2 where
    p: "propagate_phase_gadegts ?rp1 = Inr (converged, rp2)"
    by (subst (asm) simplify_loop.simps) (auto simp: Let_def split: sum.splits)
  show ?case
  proof (cases converged)
    case True
    with p "1.prems" have res: "res = rp2"
      by (subst (asm) simplify_loop.simps) (simp add: Let_def)
    from p True have q: "propagate_phase_gadegts ?rp1 = Inr (True, rp2)" by simp
    from propagate_phase_gadegts_converged [OF q] have "rp2 = ?rp1" .
    with res q show ?thesis by simp
  next
    case False
    with p "1.prems" have "simplify_loop rp2 = Inr res"
      by (subst (asm) simplify_loop.simps) (simp add: Let_def)
    with "1.IH" [OF refl p refl] False show ?thesis by simp
  qed
qed

lemma simplify_loop_of_fixed:
  "remove_collapsed_pauli_gadegts res = res \<Longrightarrow> propagate_phase_gadegts res = Inr (True, res) \<Longrightarrow>
     simplify_loop res = Inr res"
  by (subst simplify_loop.simps) (simp add: Let_def)

lemma simplify_Inr:
  assumes "simplify_pauli_polynomial pp = Inr pp'"
  shows "num_qubits pp' = num_qubits pp"
    and "simplify_loop (pauli_gadgets pp) = Inr (pauli_gadgets pp')"
    and "\<forall>g \<in> set (pauli_gadgets pp'). length (paulis g) = num_qubits pp"
proof -
  from assms obtain rp where
    l: "simplify_loop (pauli_gadgets pp) = Inr rp" and
    a: "irshift_all \<lparr>num_qubits = num_qubits pp, pauli_gadgets = []\<rparr> rp = Inr pp'"
    by (auto simp: simplify_pauli_polynomial_def split: sum.splits)
  from irshift_all_Inr [OF a] have
    pp': "pp' = \<lparr>num_qubits = num_qubits pp, pauli_gadgets = rp\<rparr>" and
    len: "\<forall>g \<in> set rp. length (paulis g) = num_qubits pp"
    by simp_all
  from pp' show "num_qubits pp' = num_qubits pp" by simp
  from pp' l show "simplify_loop (pauli_gadgets pp) = Inr (pauli_gadgets pp')" by simp
  from pp' len show "\<forall>g \<in> set (pauli_gadgets pp'). length (paulis g) = num_qubits pp" by simp
qed


definition well_formed :: "nat \<Rightarrow> PauliGadget list \<Rightarrow> bool" where
  "well_formed n gs = list_all (\<lambda>g. length (paulis g) = n) gs"

lemma well_formed_nth: "well_formed n gs \<Longrightarrow> i < length gs \<Longrightarrow> length (paulis (gs ! i)) = n"
  by (simp add: well_formed_def list_all_length)

lemma well_formed_remove:
  "well_formed n gs \<Longrightarrow> well_formed n (remove_collapsed_pauli_gadegts gs)"
  by (simp add: well_formed_def remove_collapsed_pauli_gadegts_def list_all_iff)

lemma map_update_same: "(map f xs)[i := f (xs ! i)] = map f xs"
  by (cases "i < length xs") (simp_all add: list_update_same_conv list_update_beyond)

lemma paulis_merge_gadgets [simp]:
  "map paulis (merge_gadgets i r rp) = map paulis rp"
proof -
  define rp1 where
    "rp1 = rp[r := (rp ! r)\<lparr>angle := angle (rp ! r) + angle (rp ! i)\<rparr>]"
  have "map paulis rp1 = (map paulis rp)[r := paulis (rp ! r)]"
    by (simp add: rp1_def map_update)
  then have a: "map paulis rp1 = map paulis rp"
    by (simp add: map_update_same)
  have "map paulis (rp1[i := (rp1 ! i)\<lparr>angle := 0\<rparr>]) = (map paulis rp1)[i := paulis (rp1 ! i)]"
    by (simp add: map_update)
  also have "\<dots> = map paulis rp1"
    by (rule map_update_same)
  finally have "map paulis (rp1[i := (rp1 ! i)\<lparr>angle := 0\<rparr>]) = map paulis rp"
    using a by simp
  then show ?thesis by (simp add: merge_gadgets_def Let_def rp1_def)
qed

lemma well_formed_paulis: "well_formed n gs \<longleftrightarrow> list_all (\<lambda>p. length p = n) (map paulis gs)"
  by (simp add: well_formed_def list_all_iff)

lemma well_formed_merge:
  "well_formed n rp \<Longrightarrow> well_formed n (merge_gadgets i r rp)"
  by (simp add: well_formed_paulis)

lemma commuting_loop_total:
  assumes "well_formed n rp" "idx < length rp" "\<forall>k \<in> set ks. k < length rp"
  shows "\<exists>b. commuting_loop rp idx ks = Inr b"
  using assms(3)
proof (induction ks)
  case Nil
  show ?case by auto
next
  case (Cons k ks)
  have "length (paulis (rp ! idx)) = length (paulis (rp ! k))"
    using assms(1,2) Cons.prems by (simp add: well_formed_nth)
  then obtain c where "commutes (rp ! idx) (rp ! k) = Inr c"
    by (auto simp: commutes_def)
  with Cons assms(2) show ?case by (cases c) auto
qed

lemma propagate_step_total:
  assumes "well_formed n rp" "idx < length rp"
  shows "\<exists>c' rp'. propagate_step idx (c, rp) = Inr (c', rp') \<and> well_formed n rp'"
proof (cases "find_machting_parity_right idx rp")
  case (Inl e)
  with assms(2) show ?thesis by (simp add: find_machting_parity_right_def)
next
  case (Inr found)
  show ?thesis
  proof (cases found)
    case None
    with Inr assms(1) show ?thesis by (simp add: propagate_step_def)
  next
    case (Some r)
    with Inr find_right_bounds have "r < length rp" by blast
    then obtain b where "is_commuting_region idx r rp = Inr b"
      using commuting_loop_total [OF assms, of "[idx..<r]"]
      by (auto simp: is_commuting_region_def)
    with Inr Some assms(1) show ?thesis
      by (cases b) (auto simp: propagate_step_def well_formed_merge)
  qed
qed

lemma propagate_loop_total:
  "well_formed n rp \<Longrightarrow> \<forall>k \<in> set idxs. k < length rp \<Longrightarrow>
     \<exists>c' rp'. propagate_loop idxs (c, rp) = Inr (c', rp') \<and> well_formed n rp'"
proof (induction idxs arbitrary: c rp)
  case Nil
  then show ?case by simp
next
  case (Cons idx idxs)
  from Cons.prems obtain c1 rp1 where
    s: "propagate_step idx (c, rp) = Inr (c1, rp1)" and w: "well_formed n rp1"
    using propagate_step_total [of n rp idx c] by auto
  from propagate_step_length [OF s] Cons.prems(2) have "\<forall>k \<in> set idxs. k < length rp1"
    by simp
  from Cons.IH [OF w this, of c1] s show ?case by simp
qed

lemma propagate_phase_gadegts_total:
  "well_formed n rp \<Longrightarrow>
     \<exists>c' rp'. propagate_phase_gadegts rp = Inr (c', rp') \<and> well_formed n rp'"
  unfolding propagate_phase_gadegts_def by (rule propagate_loop_total) simp_all

lemma simplify_loop_total:
  "well_formed n rp \<Longrightarrow> \<exists>res. simplify_loop rp = Inr res \<and> well_formed n res"
proof (induction rp rule: simplify_loop.induct)
  case (1 remaining_poly)
  let ?rp1 = "remove_collapsed_pauli_gadegts remaining_poly"
  have w1: "well_formed n ?rp1" using "1.prems" by (rule well_formed_remove)
  then obtain converged rp2 where
    p: "propagate_phase_gadegts ?rp1 = Inr (converged, rp2)" and w2: "well_formed n rp2"
    using propagate_phase_gadegts_total by blast
  show ?case
  proof (cases converged)
    case True
    with p w2 show ?thesis by (subst simplify_loop.simps) (simp add: Let_def)
  next
    case False
    from "1.IH" [OF refl p refl False w2] obtain res where
      "simplify_loop rp2 = Inr res" "well_formed n res" by blast
    with p False show ?thesis by (subst simplify_loop.simps) (simp add: Let_def)
  qed
qed

lemma simplify_total:
  assumes "well_formed (num_qubits pp) (pauli_gadgets pp)"
  shows "\<exists>pp'. simplify_pauli_polynomial pp = Inr pp'"
proof -
  from simplify_loop_total [OF assms] obtain res where
    l: "simplify_loop (pauli_gadgets pp) = Inr res" and w: "well_formed (num_qubits pp) res"
    by blast
  from w have "\<forall>g \<in> set res. length (paulis g) = num_qubits pp"
    by (simp add: well_formed_def list_all_iff)
  then have "irshift_all \<lparr>num_qubits = num_qubits pp, pauli_gadgets = []\<rparr> res
      = Inr \<lparr>num_qubits = num_qubits pp, pauli_gadgets = res\<rparr>"
    by (subst irshift_all_ok) simp_all
  with l show ?thesis by (simp add: simplify_pauli_polynomial_def)
qed

text \<open>Without two gadgets of the same Pauli string no pass merges anything.\<close>

lemma same_paulis_eq:
  "length (paulis g) = length (paulis h) \<Longrightarrow> same_paulis g h \<longleftrightarrow> paulis g = paulis h"
  by (auto simp: same_paulis_def list_all_length list_eq_iff_nth_eq)

lemma first_index_None_iff: "first_index P xs = None \<longleftrightarrow> (\<forall>x \<in> set xs. \<not> P x)"
  by (induction xs) auto

lemma find_none:
  assumes "well_formed n rp" "distinct (map paulis rp)" "idx < length rp"
  shows "find_machting_parity_right idx rp = Inr None"
proof -
  have "\<not> same_paulis (rp ! idx) h" if "h \<in> set (drop (idx + 1) rp)" for h
  proof -
    from that obtain j where j: "j < length rp - (idx + 1)" and h: "h = rp ! (idx + 1 + j)"
      by (auto simp: in_set_conv_nth)
    from j have lt: "idx + 1 + j < length rp" by simp
    with assms(1,3) h have "length (paulis (rp ! idx)) = length (paulis h)"
      by (simp add: well_formed_nth)
    moreover have "paulis (rp ! idx) \<noteq> paulis h"
      using assms(2,3) lt h by (simp add: distinct_conv_nth)
    ultimately show ?thesis by (simp add: same_paulis_eq)
  qed
  then show ?thesis using assms(3)
    by (simp add: find_machting_parity_right_def first_index_None_iff)
qed

lemma propagate_loop_distinct:
  "well_formed n rp \<Longrightarrow> distinct (map paulis rp) \<Longrightarrow> \<forall>k \<in> set idxs. k < length rp \<Longrightarrow>
     propagate_loop idxs (c, rp) = Inr (c, rp)"
  by (induction idxs) (simp_all add: propagate_step_def find_none)

lemma simplify_loop_distinct:
  assumes "well_formed n rp" "distinct (map paulis rp)"
  shows "simplify_loop rp = Inr (remove_collapsed_pauli_gadegts rp)"
proof -
  let ?rp1 = "remove_collapsed_pauli_gadegts rp"
  have "distinct (map paulis ?rp1)"
    using assms(2) by (simp add: remove_collapsed_pauli_gadegts_def distinct_map_filter)
  with well_formed_remove [OF assms(1)]
  have "propagate_phase_gadegts ?rp1 = Inr (True, ?rp1)"
    unfolding propagate_phase_gadegts_def by (intro propagate_loop_distinct) simp_all
  then show ?thesis by (subst simplify_loop.simps) (simp add: Let_def)
qed

subsection \<open>When a region commutes\<close>



lemma merge_gadgets_right:
  "idx \<noteq> r \<Longrightarrow> r < length rp \<Longrightarrow>
     angle (merge_gadgets idx r rp ! r) = angle (rp ! r) + angle (rp ! idx)"
  by (simp add: merge_gadgets_def Let_def)

lemma propagate_two_equal:
  "propagate_phase_gadegts [\<lparr>angle = a, paulis = [Z, Z]\<rparr>, \<lparr>angle = b, paulis = [Z, Z]\<rparr>] =
     Inr (False, [\<lparr>angle = 0, paulis = [Z, Z]\<rparr>, \<lparr>angle = b + a, paulis = [Z, Z]\<rparr>])"
  by (simp add: propagate_phase_gadegts_def upt_rec propagate_step_def
      find_machting_parity_right_def same_paulis_def is_commuting_region_def commutes_def
      merge_gadgets_def)

lemma propagate_single:
  "propagate_phase_gadegts [g] = Inr (True, [g])"
  by (simp add: propagate_phase_gadegts_def upt_rec propagate_step_def
      find_machting_parity_right_def)

lemma propagate_empty: "propagate_phase_gadegts [] = Inr (True, [])"
  by (simp add: propagate_phase_gadegts_def)

lemma simplify_two_equal:
  assumes "a \<noteq> 0" "a \<noteq> 2 * pi" "b \<noteq> 0" "b \<noteq> 2 * pi"
  shows "simplify_loop [\<lparr>angle = a, paulis = [Z, Z]\<rparr>, \<lparr>angle = b, paulis = [Z, Z]\<rparr>] =
     Inr (remove_collapsed_pauli_gadegts [\<lparr>angle = b + a, paulis = [Z, Z]\<rparr>])"
proof -
  let ?l = "\<lparr>angle = a, paulis = [Z, Z]\<rparr>" and ?r = "\<lparr>angle = b, paulis = [Z, Z]\<rparr>"
  let ?m = "\<lparr>angle = b + a, paulis = [Z, Z]\<rparr>"
  have first: "remove_collapsed_pauli_gadegts [?l, ?r] = [?l, ?r]"
    using assms by (simp add: remove_collapsed_pauli_gadegts_def)
  have second: "remove_collapsed_pauli_gadegts [\<lparr>angle = 0, paulis = [Z, Z]\<rparr>, ?m]
      = remove_collapsed_pauli_gadegts [?m]"
    by (simp add: remove_collapsed_pauli_gadegts_def)
  have third: "propagate_phase_gadegts (remove_collapsed_pauli_gadegts [?m])
      = Inr (True, remove_collapsed_pauli_gadegts [?m])"
    by (simp add: remove_collapsed_pauli_gadegts_def propagate_single propagate_empty)
  have "simplify_loop [?l, ?r] = simplify_loop [\<lparr>angle = 0, paulis = [Z, Z]\<rparr>, ?m]"
    by (subst simplify_loop.simps) (simp add: first propagate_two_equal)
  also have "\<dots> = Inr (remove_collapsed_pauli_gadegts [?m])"
    by (subst simplify_loop.simps) (simp add: second third)
  finally show ?thesis .
qed

section \<open>Claims about simplification\<close>

text \<open>
  C4, as the spec states it: simplification removes every gadget whose angle is congruent
  to 0 modulo the full rotation period. The code compares with \<open>0\<close> and \<open>2 * np.pi\<close>
  only, so a gadget of angle \<open>4 * pi\<close>, two full periods, stays in the result.
\<close>

theorem simplify_keeps_two_periods:
  "simplify_pauli_polynomial
       \<lparr>num_qubits = 1, pauli_gadgets = [\<lparr>angle = 4 * pi, paulis = [Z]\<rparr>]\<rparr>
     = Inr \<lparr>num_qubits = 1, pauli_gadgets = [\<lparr>angle = 4 * pi, paulis = [Z]\<rparr>]\<rparr>
   \<and> 4 * pi = 2 * (2 * pi)"
proof -
  let ?g = "\<lparr>angle = 4 * pi, paulis = [Z]\<rparr>"
  have "remove_collapsed_pauli_gadegts [?g] = [?g]"
    by (simp add: remove_collapsed_pauli_gadegts_def)
  then have "simplify_loop [?g] = Inr [?g]"
    by (subst simplify_loop.simps) (simp add: propagate_single)
  then show ?thesis by (simp add: simplify_pauli_polynomial_def irshift_def)
qed

text \<open>
  C4, amended: no gadget of a simplified polynomial has an angle that is exactly \<open>0\<close> or
  exactly \<open>2 * pi\<close>; and where no two gadgets carry the same Pauli string (so nothing is
  merged) the result is the input without exactly the gadgets of angle \<open>0\<close> or \<open>2 * pi\<close>,
  in the same order. Other multiples of the period are kept.
\<close>

theorem simplify_removes_exactly_collapsed:
  "(simplify_pauli_polynomial pp = Inr pp' \<longrightarrow>
      (\<forall>g \<in> set (pauli_gadgets pp'). angle g \<noteq> 0 \<and> angle g \<noteq> 2 * pi)) \<and>
   (well_formed (num_qubits pp) (pauli_gadgets pp) \<and> distinct (map paulis (pauli_gadgets pp)) \<longrightarrow>
      simplify_pauli_polynomial pp =
        Inr (pp\<lparr>pauli_gadgets :=
                  filter (\<lambda>g. angle g \<noteq> 2 * pi \<and> angle g \<noteq> 0) (pauli_gadgets pp)\<rparr>))"
proof (intro conjI impI)
  assume a: "simplify_pauli_polynomial pp = Inr pp'"
  from simplify_loop_fixed [OF simplify_Inr(2) [OF a]]
  have "remove_collapsed_pauli_gadegts (pauli_gadgets pp') = pauli_gadgets pp'" by simp
  then show "\<forall>g \<in> set (pauli_gadgets pp'). angle g \<noteq> 0 \<and> angle g \<noteq> 2 * pi"
    unfolding remove_collapsed_pauli_gadegts_def filter_id_conv by blast
next
  assume "well_formed (num_qubits pp) (pauli_gadgets pp) \<and> distinct (map paulis (pauli_gadgets pp))"
  then have w: "well_formed (num_qubits pp) (pauli_gadgets pp)"
    and d: "distinct (map paulis (pauli_gadgets pp))" by simp_all
  let ?res = "remove_collapsed_pauli_gadegts (pauli_gadgets pp)"
  from well_formed_remove [OF w] have "\<forall>g \<in> set ?res. length (paulis g) = num_qubits pp"
    by (simp add: well_formed_def list_all_iff)
  then have "irshift_all \<lparr>num_qubits = num_qubits pp, pauli_gadgets = []\<rparr> ?res
      = Inr \<lparr>num_qubits = num_qubits pp, pauli_gadgets = ?res\<rparr>"
    by (subst irshift_all_ok) simp_all
  with simplify_loop_distinct [OF w d]
  show "simplify_pauli_polynomial pp =
        Inr (pp\<lparr>pauli_gadgets :=
                  filter (\<lambda>g. angle g \<noteq> 2 * pi \<and> angle g \<noteq> 0) (pauli_gadgets pp)\<rparr>)"
    by (simp add: simplify_pauli_polynomial_def remove_collapsed_pauli_gadegts_def)
qed

theorem simplify_removes_exactly_collapsed_witness:
  "well_formed 1 [\<lparr>angle = 0, paulis = [X]\<rparr>, \<lparr>angle = 4 * pi, paulis = [Z]\<rparr>,
                  \<lparr>angle = 2 * pi, paulis = [Y]\<rparr>] \<and>
   distinct (map paulis [\<lparr>angle = 0, paulis = [X]\<rparr>, \<lparr>angle = 4 * pi, paulis = [Z]\<rparr>,
                  \<lparr>angle = 2 * pi, paulis = [Y]\<rparr>]) \<and>
   simplify_pauli_polynomial
       \<lparr>num_qubits = 1,
          pauli_gadgets = [\<lparr>angle = 0, paulis = [X]\<rparr>, \<lparr>angle = 4 * pi, paulis = [Z]\<rparr>,
                           \<lparr>angle = 2 * pi, paulis = [Y]\<rparr>]\<rparr>
     = Inr \<lparr>num_qubits = 1, pauli_gadgets = [\<lparr>angle = 4 * pi, paulis = [Z]\<rparr>]\<rparr> \<and>
   list_all (\<lambda>g. angle g \<noteq> 0 \<and> angle g \<noteq> 2 * pi) [\<lparr>angle = 4 * pi, paulis = [Z]\<rparr>]"
proof -
  let ?gs = "[\<lparr>angle = 0, paulis = [X]\<rparr>, \<lparr>angle = 4 * pi, paulis = [Z]\<rparr>,
              \<lparr>angle = 2 * pi, paulis = [Y]\<rparr>]"
  let ?pp = "\<lparr>num_qubits = 1, pauli_gadgets = ?gs\<rparr>"
  let ?pp' = "\<lparr>num_qubits = 1, pauli_gadgets = [\<lparr>angle = 4 * pi, paulis = [Z]\<rparr>]\<rparr>"
  have w: "well_formed 1 ?gs" by (simp add: well_formed_def)
  have d: "distinct (map paulis ?gs)" by simp
  note inst = simplify_removes_exactly_collapsed [of ?pp ?pp']
  from inst w d have s: "simplify_pauli_polynomial ?pp = Inr ?pp'" by simp
  with inst have "\<forall>g \<in> set (pauli_gadgets ?pp'). angle g \<noteq> 0 \<and> angle g \<noteq> 2 * pi" by blast
  with w d s show ?thesis by simp
qed


subsection \<open>The gadget that the search finds\<close>









text \<open>
  C6: simplifying twice gives what simplifying once gives, the same gadgets with the same
  angles in the same order, and the same exception where the first run raises. On a
  polynomial whose gadgets all have \<open>num_qubits\<close> entries no run raises.
\<close>

definition simplify_twice :: "PauliPolynomial \<Rightarrow> error + PauliPolynomial" where
  "simplify_twice pp =
     (case simplify_pauli_polynomial pp of
        Inl e \<Rightarrow> Inl e
      | Inr pp' \<Rightarrow> simplify_pauli_polynomial pp')"

theorem simplify_idempotent:
  "simplify_twice pp = simplify_pauli_polynomial pp \<and>
   (well_formed (num_qubits pp) (pauli_gadgets pp) \<longrightarrow>
      (\<exists>pp'. simplify_pauli_polynomial pp = Inr pp' \<and> simplify_pauli_polynomial pp' = Inr pp'))"
proof -
  have again: "simplify_pauli_polynomial pp' = Inr pp'"
    if a: "simplify_pauli_polynomial pp = Inr pp'" for pp'
  proof -
    note s = simplify_Inr [OF a]
    from simplify_loop_fixed [OF s(2)]
    have "simplify_loop (pauli_gadgets pp') = Inr (pauli_gadgets pp')"
      by (intro simplify_loop_of_fixed) simp_all
    moreover have "irshift_all \<lparr>num_qubits = num_qubits pp', pauli_gadgets = []\<rparr>
        (pauli_gadgets pp') = Inr pp'"
      using s(1,3) by (subst irshift_all_ok) simp_all
    ultimately show ?thesis by (simp add: simplify_pauli_polynomial_def)
  qed
  have "simplify_twice pp = simplify_pauli_polynomial pp"
    by (cases "simplify_pauli_polynomial pp") (simp_all add: simplify_twice_def again)
  moreover have "\<exists>pp'. simplify_pauli_polynomial pp = Inr pp' \<and> simplify_pauli_polynomial pp' = Inr pp'"
    if "well_formed (num_qubits pp) (pauli_gadgets pp)"
    using simplify_total [OF that] again by blast
  ultimately show ?thesis by blast
qed

theorem simplify_idempotent_witness:
  "well_formed 2 [\<lparr>angle = 1, paulis = [Z, Z]\<rparr>, \<lparr>angle = 2, paulis = [Z, Z]\<rparr>] \<and>
   simplify_twice
       \<lparr>num_qubits = 2,
          pauli_gadgets = [\<lparr>angle = 1, paulis = [Z, Z]\<rparr>, \<lparr>angle = 2, paulis = [Z, Z]\<rparr>]\<rparr>
     = Inr \<lparr>num_qubits = 2, pauli_gadgets = [\<lparr>angle = 2 + 1, paulis = [Z, Z]\<rparr>]\<rparr>"
proof -
  let ?rp = "[\<lparr>angle = 1, paulis = [Z, Z]\<rparr>, \<lparr>angle = 2, paulis = [Z, Z]\<rparr>]"
  let ?pp = "\<lparr>num_qubits = 2, pauli_gadgets = ?rp\<rparr>"
  have w: "well_formed 2 ?rp" by (simp add: well_formed_def)
  have two_pi: "4 \<le> 2 * pi" using pi_ge_two by simp
  then have "simplify_loop ?rp = Inr [\<lparr>angle = 2 + 1, paulis = [Z, Z]\<rparr>]"
    by (subst simplify_two_equal) (auto simp: remove_collapsed_pauli_gadegts_def)
  then have once: "simplify_pauli_polynomial ?pp
      = Inr \<lparr>num_qubits = 2, pauli_gadgets = [\<lparr>angle = 2 + 1, paulis = [Z, Z]\<rparr>]\<rparr>"
    by (simp add: simplify_pauli_polynomial_def irshift_def)
  from simplify_idempotent [of ?pp] have "simplify_twice ?pp = simplify_pauli_polynomial ?pp"
    by blast
  with once w show ?thesis by simp
qed

section \<open>Simplification over a store of objects\<close>

record gadget_object =
  object_angle :: real
  object_paulis :: nat

record polynomial_object =
  object_num_qubits :: nat
  object_gadgets :: "nat list"

record heap =
  gadget_at :: "nat \<Rightarrow> gadget_object"
  paulis_at :: "nat \<Rightarrow> Pauli list"
  polynomial_at :: "nat \<Rightarrow> polynomial_object"
  next_gadget :: nat
  next_list :: nat
  next_polynomial :: nat

definition gadget_value :: "heap \<Rightarrow> nat \<Rightarrow> PauliGadget" where
  "gadget_value h a =
     \<lparr>angle = object_angle (gadget_at h a), paulis = paulis_at h (object_paulis (gadget_at h a))\<rparr>"

definition set_angle :: "nat \<Rightarrow> real \<Rightarrow> heap \<Rightarrow> heap" where
  "set_angle a t h = h\<lparr>gadget_at := (gadget_at h)(a := (gadget_at h a)\<lparr>object_angle := t\<rparr>)\<rparr>"

definition copy_h :: "nat \<Rightarrow> heap \<Rightarrow> nat \<times> heap" where
  "copy_h a h =
     (let l = next_list h; g = next_gadget h in
      (g, h\<lparr>paulis_at := (paulis_at h)(l := paulis_at h (object_paulis (gadget_at h a))),
             next_list := Suc l,
             gadget_at := (gadget_at h)(g := \<lparr>object_angle = object_angle (gadget_at h a),
                                                object_paulis = l\<rparr>),
             next_gadget := Suc g\<rparr>))"

fun copy_all :: "nat list \<Rightarrow> heap \<Rightarrow> nat list \<times> heap" where
  "copy_all [] h = ([], h)"
| "copy_all (a # as) h =
     (case copy_h a h of (g, h1) \<Rightarrow> (case copy_all as h1 of (gs, h2) \<Rightarrow> (g # gs, h2)))"

definition remove_collapsed_h :: "nat list \<Rightarrow> heap \<Rightarrow> nat list" where
  "remove_collapsed_h remaining_poly h =
     filter (\<lambda>x. angle (gadget_value h x) \<noteq> 2 * pi \<and> angle (gadget_value h x) \<noteq> 0) remaining_poly"

definition merge_h :: "nat \<Rightarrow> nat \<Rightarrow> nat list \<Rightarrow> heap \<Rightarrow> heap" where
  "merge_h idx idx_right remaining_poly h =
     (let h1 = set_angle (remaining_poly ! idx_right)
                 (angle (gadget_value h (remaining_poly ! idx_right))
                    + angle (gadget_value h (remaining_poly ! idx))) h
      in set_angle (remaining_poly ! idx) 0 h1)"

definition propagate_step_h ::
  "nat list \<Rightarrow> nat \<Rightarrow> bool \<times> heap \<Rightarrow> (error + bool) \<times> heap" where
  "propagate_step_h remaining_poly idx s =
     (case s of (converged, h) \<Rightarrow>
        (case find_machting_parity_right idx (map (gadget_value h) remaining_poly) of
           Inl e \<Rightarrow> (Inl e, h)
         | Inr None \<Rightarrow> (Inr converged, h)
         | Inr (Some idx_right) \<Rightarrow>
             (case is_commuting_region idx idx_right (map (gadget_value h) remaining_poly) of
                Inl e \<Rightarrow> (Inl e, h)
              | Inr c \<Rightarrow>
                  if \<not> c then (Inr converged, h)
                  else (Inr False, merge_h idx idx_right remaining_poly h))))"

fun propagate_loop_h ::
  "nat list \<Rightarrow> nat list \<Rightarrow> bool \<times> heap \<Rightarrow> (error + bool) \<times> heap" where
  "propagate_loop_h remaining_poly [] s = (Inr (fst s), snd s)"
| "propagate_loop_h remaining_poly (idx # idxs) s =
     (case propagate_step_h remaining_poly idx s of
        (Inl e, h1) \<Rightarrow> (Inl e, h1)
      | (Inr converged, h1) \<Rightarrow> propagate_loop_h remaining_poly idxs (converged, h1))"

definition propagate_phase_h :: "nat list \<Rightarrow> heap \<Rightarrow> (error + bool) \<times> heap" where
  "propagate_phase_h remaining_poly h =
     propagate_loop_h remaining_poly [0..<length remaining_poly] (True, h)"

lemma set_angle_value:
  "angle (gadget_value (set_angle a t h) b) = (if b = a then t else angle (gadget_value h b))"
  by (simp add: gadget_value_def set_angle_def)

lemma merge_h_zero: "angle (gadget_value (merge_h idx r rp h) (rp ! idx)) = 0"
  by (simp add: merge_h_def Let_def set_angle_value)

lemma propagate_step_h_cases:
  assumes "propagate_step_h rp idx (c, h) = (Inr c', h')"
  shows "(c' = c \<and> h' = h) \<or>
         (\<exists>r. find_machting_parity_right idx (map (gadget_value h) rp) = Inr (Some r) \<and>
              c' = False \<and> h' = merge_h idx r rp h)"
proof (cases "find_machting_parity_right idx (map (gadget_value h) rp)")
  case (Inl e)
  with assms show ?thesis by (simp add: propagate_step_h_def)
next
  case (Inr found)
  show ?thesis
  proof (cases found)
    case None
    with Inr assms show ?thesis by (simp add: propagate_step_h_def)
  next
    case (Some r)
    show ?thesis
    proof (cases "is_commuting_region idx r (map (gadget_value h) rp)")
      case (Inl e)
      with Inr Some assms show ?thesis by (simp add: propagate_step_h_def)
    next
      case cr: (Inr b)
      with Inr Some assms show ?thesis
        by (cases b) (simp_all add: propagate_step_h_def)
    qed
  qed
qed

lemma propagate_step_h_frame:
  "propagate_step_h rp idx (c, h) = (res, h') \<Longrightarrow>
     h' = h \<or> (\<exists>r. find_machting_parity_right idx (map (gadget_value h) rp) = Inr (Some r) \<and>
                     h' = merge_h idx r rp h)"
  by (auto simp: propagate_step_h_def split: sum.splits option.splits if_splits)

definition has_zero :: "nat list \<Rightarrow> bool \<times> heap \<Rightarrow> bool" where
  "has_zero rp s = (fst s \<or> (\<exists>a \<in> set rp. angle (gadget_value (snd s) a) = 0))"

lemma propagate_step_h_zero:
  assumes "propagate_step_h rp idx (c, h) = (Inr c', h')" "has_zero rp (c, h)"
  shows "has_zero rp (c', h')"
proof -
  from propagate_step_h_cases [OF assms(1)] show ?thesis
  proof
    assume "c' = c \<and> h' = h"
    with assms(2) show ?thesis by auto
  next
    assume "\<exists>r. find_machting_parity_right idx (map (gadget_value h) rp) = Inr (Some r) \<and>
              c' = False \<and> h' = merge_h idx r rp h"
    then obtain r where f: "find_machting_parity_right idx (map (gadget_value h) rp) = Inr (Some r)"
      and h': "h' = merge_h idx r rp h" by blast
    from find_right_bounds [OF f] have "idx < length rp" by simp
    then have "rp ! idx \<in> set rp" by simp
    with h' merge_h_zero show ?thesis unfolding has_zero_def by fastforce
  qed
qed

lemma propagate_loop_h_zero:
  "propagate_loop_h rp idxs (c, h) = (Inr c', h') \<Longrightarrow> has_zero rp (c, h) \<Longrightarrow> has_zero rp (c', h')"
proof (induction idxs arbitrary: c h)
  case Nil
  then show ?case by simp
next
  case (Cons idx idxs)
  from Cons.prems(1) obtain c1 h1 where
    s: "propagate_step_h rp idx (c, h) = (Inr c1, h1)" and
    l: "propagate_loop_h rp idxs (c1, h1) = (Inr c', h')"
    by (auto split: prod.splits sum.splits)
  from Cons.IH [OF l propagate_step_h_zero [OF s Cons.prems(2)]] show ?case .
qed

lemma propagate_phase_h_zero:
  assumes "propagate_phase_h rp h = (Inr False, h')"
  shows "\<exists>a \<in> set rp. angle (gadget_value h' a) = 0"
  using propagate_loop_h_zero [of rp "[0..<length rp]" True h False h'] assms
  by (simp add: propagate_phase_h_def has_zero_def)

lemma remove_collapsed_h_shrinks:
  "\<exists>a \<in> set rp. angle (gadget_value h a) = 0 \<Longrightarrow> length (remove_collapsed_h rp h) < length rp"
  unfolding remove_collapsed_h_def
  by (metis (mono_tags, lifting) length_filter_less)

function simplify_loop_h :: "nat list \<Rightarrow> heap \<Rightarrow> (error + nat list) \<times> heap" where
  "simplify_loop_h remaining_poly h =
     (let remaining_poly1 = remove_collapsed_h remaining_poly h in
      case propagate_phase_h remaining_poly1 h of
        (Inl e, h1) \<Rightarrow> (Inl e, h1)
      | (Inr converged, h1) \<Rightarrow>
          if converged then (Inr remaining_poly1, h1) else simplify_loop_h remaining_poly1 h1)"
  by pat_completeness auto
termination
proof (relation "measure (\<lambda>(rp, h). length (remove_collapsed_h rp h))")
  show "wf (measure (\<lambda>(rp, h). length (remove_collapsed_h rp h)))" by simp
next
  fix remaining_poly :: "nat list" and h remaining_poly1 x y converged
  assume r1: "remaining_poly1 = remove_collapsed_h remaining_poly h"
    and p: "(x, y) = propagate_phase_h remaining_poly1 h"
    and x: "x = Inr converged" and c: "\<not> converged"
  from p x c have "propagate_phase_h remaining_poly1 h = (Inr False, y)" by simp
  from remove_collapsed_h_shrinks [OF propagate_phase_h_zero [OF this]] r1
  show "((remaining_poly1, y), remaining_poly, h)
      \<in> measure (\<lambda>(rp, h). length (remove_collapsed_h rp h))"
    by simp
qed

declare simplify_loop_h.simps [simp del]

definition irshift_h :: "nat \<Rightarrow> nat \<Rightarrow> heap \<Rightarrow> (error + nat) \<times> heap" where
  "irshift_h p gadget h =
     (if \<not> length (paulis (gadget_value h gadget)) = object_num_qubits (polynomial_at h p)
      then (Inl Exception, h)
      else (Inr p, h\<lparr>polynomial_at := (polynomial_at h)
              (p := (polynomial_at h p)
                 \<lparr>object_gadgets := object_gadgets (polynomial_at h p) @ [gadget]\<rparr>)\<rparr>))"

fun irshift_all_h :: "nat \<Rightarrow> nat list \<Rightarrow> heap \<Rightarrow> (error + nat) \<times> heap" where
  "irshift_all_h p [] h = (Inr p, h)"
| "irshift_all_h p (gadget # gadgets) h =
     (case irshift_h p gadget h of
        (Inl e, h1) \<Rightarrow> (Inl e, h1)
      | (Inr p1, h1) \<Rightarrow> irshift_all_h p1 gadgets h1)"

definition new_polynomial :: "nat \<Rightarrow> heap \<Rightarrow> nat \<times> heap" where
  "new_polynomial n h =
     (let p = next_polynomial h in
      (p, h\<lparr>polynomial_at := (polynomial_at h)(p := \<lparr>object_num_qubits = n, object_gadgets = []\<rparr>),
             next_polynomial := Suc p\<rparr>))"

definition simplify_h :: "nat \<Rightarrow> heap \<Rightarrow> (error + nat) \<times> heap" where
  "simplify_h pp h =
     (case copy_all (object_gadgets (polynomial_at h pp)) h of
        (remaining_poly, h1) \<Rightarrow>
          (case simplify_loop_h remaining_poly h1 of
             (Inl e, h2) \<Rightarrow> (Inl e, h2)
           | (Inr remaining_poly2, h2) \<Rightarrow>
               (case new_polynomial (object_num_qubits (polynomial_at h2 pp)) h2 of
                  (p, h3) \<Rightarrow> irshift_all_h p remaining_poly2 h3)))"

definition preserves :: "heap \<Rightarrow> heap \<Rightarrow> bool" where
  "preserves h0 h =
     ((\<forall>a. a < next_gadget h0 \<longrightarrow> gadget_at h a = gadget_at h0 a) \<and>
      (\<forall>l. l < next_list h0 \<longrightarrow> paulis_at h l = paulis_at h0 l) \<and>
      (\<forall>p. p < next_polynomial h0 \<longrightarrow> polynomial_at h p = polynomial_at h0 p) \<and>
      next_gadget h0 \<le> next_gadget h \<and> next_list h0 \<le> next_list h \<and>
      next_polynomial h0 \<le> next_polynomial h)"

lemma preserves_refl [simp]: "preserves h h"
  by (simp add: preserves_def)

lemma preserves_copy_h:
  "preserves h0 h \<Longrightarrow> copy_h a h = (g, h') \<Longrightarrow> preserves h0 h' \<and> next_gadget h0 \<le> g \<and> g < next_gadget h'"
  by (auto simp: preserves_def copy_h_def Let_def)

lemma preserves_mono_gadget:
  "preserves h0 h \<Longrightarrow> next_gadget h0 \<le> next_gadget h"
  by (simp add: preserves_def)

lemma preserves_copy_all:
  "preserves h0 h \<Longrightarrow> copy_all as h = (gs, h') \<Longrightarrow>
     preserves h0 h' \<and> (\<forall>g \<in> set gs. next_gadget h0 \<le> g)"
proof (induction as arbitrary: h gs)
  case Nil
  then show ?case by simp
next
  case (Cons a as)
  from Cons.prems(2) obtain g h1 gs1 where
    c: "copy_h a h = (g, h1)" and r: "copy_all as h1 = (gs1, h')" and gs: "gs = g # gs1"
    by (auto split: prod.splits)
  from preserves_copy_h [OF Cons.prems(1) c] have p1: "preserves h0 h1" and g: "next_gadget h0 \<le> g"
    by simp_all
  from Cons.IH [OF p1 r] g gs show ?case by simp
qed

lemma preserves_set_angle:
  "preserves h0 h \<Longrightarrow> next_gadget h0 \<le> a \<Longrightarrow> preserves h0 (set_angle a t h)"
  by (simp add: preserves_def set_angle_def)

lemma preserves_merge_h:
  assumes "preserves h0 h" "\<forall>a \<in> set rp. next_gadget h0 \<le> a" "idx < length rp" "r < length rp"
  shows "preserves h0 (merge_h idx r rp h)"
  using assms by (simp add: merge_h_def Let_def preserves_set_angle)

lemma preserves_step:
  assumes "preserves h0 h" "\<forall>a \<in> set rp. next_gadget h0 \<le> a"
    "propagate_step_h rp idx (c, h) = (res, h')"
  shows "preserves h0 h'"
proof -
  from propagate_step_h_frame [OF assms(3)] show ?thesis
  proof
    assume "h' = h"
    with assms(1) show ?thesis by simp
  next
    assume "\<exists>r. find_machting_parity_right idx (map (gadget_value h) rp) = Inr (Some r) \<and>
              h' = merge_h idx r rp h"
    then obtain r where f: "find_machting_parity_right idx (map (gadget_value h) rp) = Inr (Some r)"
      and h': "h' = merge_h idx r rp h" by blast
    from find_right_bounds [OF f] have "idx < length rp" "r < length rp" by simp_all
    with preserves_merge_h [OF assms(1,2)] h' show ?thesis by simp
  qed
qed

lemma preserves_loop:
  "preserves h0 h \<Longrightarrow> \<forall>a \<in> set rp. next_gadget h0 \<le> a \<Longrightarrow>
     propagate_loop_h rp idxs (c, h) = (res, h') \<Longrightarrow> preserves h0 h'"
proof (induction idxs arbitrary: c h)
  case Nil
  then show ?case by simp
next
  case (Cons idx idxs)
  obtain r1 h1 where s: "propagate_step_h rp idx (c, h) = (r1, h1)"
    by (cases "propagate_step_h rp idx (c, h)")
  from preserves_step [OF Cons.prems(1,2) s] have p1: "preserves h0 h1" .
  show ?case
  proof (cases r1)
    case (Inl e)
    with s Cons.prems(3) p1 show ?thesis by simp
  next
    case (Inr c1)
    with s Cons.prems(3) have "propagate_loop_h rp idxs (c1, h1) = (res, h')" by simp
    from Cons.IH [OF p1 Cons.prems(2) this] show ?thesis .
  qed
qed

lemma preserves_phase:
  "preserves h0 h \<Longrightarrow> \<forall>a \<in> set rp. next_gadget h0 \<le> a \<Longrightarrow>
     propagate_phase_h rp h = (res, h') \<Longrightarrow> preserves h0 h'"
  unfolding propagate_phase_h_def by (rule preserves_loop)

lemma preserves_simplify_loop:
  "preserves h0 h \<Longrightarrow> \<forall>a \<in> set rp. next_gadget h0 \<le> a \<Longrightarrow>
     simplify_loop_h rp h = (res, h') \<Longrightarrow> preserves h0 h'"
proof (induction rp h rule: simplify_loop_h.induct)
  case (1 remaining_poly h)
  let ?rp1 = "remove_collapsed_h remaining_poly h"
  have sub: "\<forall>a \<in> set ?rp1. next_gadget h0 \<le> a"
    using "1.prems"(2) by (simp add: remove_collapsed_h_def)
  obtain r1 h1 where p: "propagate_phase_h ?rp1 h = (r1, h1)"
    by (cases "propagate_phase_h ?rp1 h")
  from preserves_phase [OF "1.prems"(1) sub p] have p1: "preserves h0 h1" .
  show ?case
  proof (cases r1)
    case (Inl e)
    with p "1.prems"(3) p1 show ?thesis
      by (subst (asm) simplify_loop_h.simps) (simp add: Let_def)
  next
    case (Inr converged)
    show ?thesis
    proof (cases converged)
      case True
      with Inr p "1.prems"(3) p1 show ?thesis
        by (subst (asm) simplify_loop_h.simps) (simp add: Let_def)
    next
      case False
      with Inr p "1.prems"(3) have "simplify_loop_h ?rp1 h1 = (res, h')"
        by (subst (asm) simplify_loop_h.simps) (simp add: Let_def)
      from "1.IH" [OF refl p [symmetric] Inr False p1 sub this] show ?thesis .
    qed
  qed
qed

lemma preserves_irshift_h:
  "preserves h0 h \<Longrightarrow> next_polynomial h0 \<le> p \<Longrightarrow> irshift_h p g h = (res, h') \<Longrightarrow>
     preserves h0 h' \<and> (\<forall>p1. res = Inr p1 \<longrightarrow> p1 = p)"
  by (auto simp: irshift_h_def preserves_def split: if_splits)

lemma preserves_irshift_all_h:
  "preserves h0 h \<Longrightarrow> next_polynomial h0 \<le> p \<Longrightarrow> irshift_all_h p gs h = (res, h') \<Longrightarrow>
     preserves h0 h'"
proof (induction gs arbitrary: h p)
  case Nil
  then show ?case by simp
next
  case (Cons g gs)
  obtain r1 h1 where s: "irshift_h p g h = (r1, h1)"
    by (cases "irshift_h p g h")
  from preserves_irshift_h [OF Cons.prems(1,2) s] have p1: "preserves h0 h1"
    and same: "\<forall>p1. r1 = Inr p1 \<longrightarrow> p1 = p" by simp_all
  show ?case
  proof (cases r1)
    case (Inl e)
    with s Cons.prems(3) p1 show ?thesis by simp
  next
    case (Inr p1)
    with same have "p1 = p" by simp
    with Inr s Cons.prems(3) have "irshift_all_h p gs h1 = (res, h')" by simp
    from Cons.IH [OF p1 Cons.prems(2) this] show ?thesis .
  qed
qed

lemma preserves_new_polynomial:
  "preserves h0 h \<Longrightarrow> new_polynomial n h = (p, h') \<Longrightarrow> preserves h0 h' \<and> next_polynomial h0 \<le> p"
  by (auto simp: new_polynomial_def preserves_def Let_def)


definition polynomial_value :: "heap \<Rightarrow> nat \<Rightarrow> PauliPolynomial" where
  "polynomial_value h p =
     \<lparr>num_qubits = object_num_qubits (polynomial_at h p),
      pauli_gadgets = map (gadget_value h) (object_gadgets (polynomial_at h p))\<rparr>"

definition allocated :: "heap \<Rightarrow> nat list \<Rightarrow> bool" where
  "allocated h as =
     list_all (\<lambda>a. a < next_gadget h \<and> object_paulis (gadget_at h a) < next_list h) as"

lemma gadget_value_set_angle:
  "gadget_value (set_angle a t h) b =
     (if b = a then (gadget_value h a)\<lparr>angle := t\<rparr> else gadget_value h b)"
  by (simp add: gadget_value_def set_angle_def)

lemma view_merge_h:
  assumes "distinct rp" "idx < length rp" "r < length rp"
  shows "map (gadget_value (merge_h idx r rp h)) rp = merge_gadgets idx r (map (gadget_value h) rp)"
proof (rule nth_equalityI)
  show "length (map (gadget_value (merge_h idx r rp h)) rp)
      = length (merge_gadgets idx r (map (gadget_value h) rp))" by simp
next
  fix j assume "j < length (map (gadget_value (merge_h idx r rp h)) rp)"
  then have j: "j < length rp" by simp
  have eqi: "rp ! j = rp ! idx \<longleftrightarrow> j = idx" and eqr: "rp ! j = rp ! r \<longleftrightarrow> j = r"
    and ri: "rp ! idx = rp ! r \<longleftrightarrow> idx = r"
    using assms j by (simp_all add: nth_eq_iff_index_eq)
  show "map (gadget_value (merge_h idx r rp h)) rp ! j
      = merge_gadgets idx r (map (gadget_value h) rp) ! j"
    using j assms(2,3) eqi eqr ri
    by (simp add: merge_h_def merge_gadgets_def Let_def gadget_value_set_angle nth_list_update)
qed

definition view :: "heap \<Rightarrow> nat list \<Rightarrow> PauliGadget list" where
  "view h rp = map (gadget_value h) rp"

fun lift :: "('a \<Rightarrow> 'b) \<Rightarrow> error + 'a \<Rightarrow> error + 'b" where
  "lift f (Inl e) = Inl e"
| "lift f (Inr x) = Inr (f x)"

lemma propagate_step_h_view:
  "propagate_step_h rp idx (c, h) =
     (case find_machting_parity_right idx (view h rp) of
           Inl e \<Rightarrow> (Inl e, h)
         | Inr None \<Rightarrow> (Inr c, h)
         | Inr (Some idx_right) \<Rightarrow>
             (case is_commuting_region idx idx_right (view h rp) of
                Inl e \<Rightarrow> (Inl e, h)
              | Inr b \<Rightarrow>
                  if \<not> b then (Inr c, h)
                  else (Inr False, merge_h idx idx_right rp h)))"
  unfolding propagate_step_h_def view_def by simp

lemma view_merge:
  "distinct rp \<Longrightarrow> idx < length rp \<Longrightarrow> r < length rp \<Longrightarrow>
     view (merge_h idx r rp h) rp = merge_gadgets idx r (view h rp)"
  by (simp add: view_def view_merge_h)

lemma step_refines:
  assumes "distinct rp" "propagate_step_h rp idx (c, h) = (res, h')"
  shows "propagate_step idx (c, view h rp) = lift (\<lambda>c'. (c', view h' rp)) res"
proof (cases "find_machting_parity_right idx (view h rp)")
  case (Inl e)
  with assms(2) have "res = Inl e" by (simp add: propagate_step_h_view)
  with Inl show ?thesis by (simp add: propagate_step_def)
next
  case (Inr found)
  show ?thesis
  proof (cases found)
    case None
    with Inr assms(2) have "res = Inr c" "h' = h" by (simp_all add: propagate_step_h_view)
    with Inr None show ?thesis by (simp add: propagate_step_def)
  next
    case (Some r)
    with Inr find_right_bounds [of idx "view h rp" r] have b: "idx < length rp" "r < length rp"
      by (simp_all add: view_def)
    show ?thesis
    proof (cases "is_commuting_region idx r (view h rp)")
      case (Inl e)
      with Inr Some assms(2) have "res = Inl e" by (simp add: propagate_step_h_view)
      with Inr Some Inl show ?thesis by (simp add: propagate_step_def)
    next
      case cr: (Inr b)
      show ?thesis
      proof (cases b)
        case True
        with Inr Some cr assms(2) have "res = Inr False" "h' = merge_h idx r rp h"
          by (simp_all add: propagate_step_h_view)
        with Inr Some cr True view_merge [OF assms(1) b, of h] show ?thesis
          by (simp add: propagate_step_def)
      next
        case False
        with Inr Some cr assms(2) have "res = Inr c" "h' = h"
          by (simp_all add: propagate_step_h_view)
        with Inr Some cr False show ?thesis by (simp add: propagate_step_def)
      qed
    qed
  qed
qed

lemma loop_refines:
  "distinct rp \<Longrightarrow> propagate_loop_h rp idxs (c, h) = (res, h') \<Longrightarrow>
     propagate_loop idxs (c, view h rp) = lift (\<lambda>c'. (c', view h' rp)) res"
proof (induction idxs arbitrary: c h)
  case Nil
  then show ?case by auto
next
  case (Cons idx idxs)
  obtain r1 h1 where s: "propagate_step_h rp idx (c, h) = (r1, h1)"
    by (cases "propagate_step_h rp idx (c, h)")
  note st = step_refines [OF Cons.prems(1) s]
  show ?case
  proof (cases r1)
    case (Inl e)
    with s st Cons.prems(2) show ?thesis by auto
  next
    case (Inr c1)
    with s Cons.prems(2) have "propagate_loop_h rp idxs (c1, h1) = (res, h')" by simp
    from Cons.IH [OF Cons.prems(1) this] st Inr show ?thesis by simp
  qed
qed

lemma phase_refines:
  "distinct rp \<Longrightarrow> propagate_phase_h rp h = (res, h') \<Longrightarrow>
     propagate_phase_gadegts (view h rp) = lift (\<lambda>c'. (c', view h' rp)) res"
  unfolding propagate_phase_h_def propagate_phase_gadegts_def
  using loop_refines [of rp "[0..<length rp]" True h res h'] by (simp add: view_def)

lemma remove_refines:
  "view h (remove_collapsed_h rp h) = remove_collapsed_pauli_gadegts (view h rp)"
  by (simp add: view_def remove_collapsed_h_def remove_collapsed_pauli_gadegts_def filter_map o_def)

lemma simplify_loop_refines:
  "distinct rp \<Longrightarrow> simplify_loop_h rp h = (res, h') \<Longrightarrow>
     simplify_loop (view h rp) = lift (view h') res"
proof (induction rp h rule: simplify_loop_h.induct)
  case (1 remaining_poly h)
  let ?rp1 = "remove_collapsed_h remaining_poly h"
  have d1: "distinct ?rp1" using "1.prems"(1) by (simp add: remove_collapsed_h_def)
  obtain r1 h1 where p: "propagate_phase_h ?rp1 h = (r1, h1)"
    by (cases "propagate_phase_h ?rp1 h")
  note ph = phase_refines [OF d1 p, unfolded remove_refines]
  show ?case
  proof (cases r1)
    case (Inl e)
    with p "1.prems"(2) have "res = Inl e"
      by (subst (asm) simplify_loop_h.simps) (auto simp: Let_def)
    with ph Inl show ?thesis by (subst simplify_loop.simps) (simp add: Let_def)
  next
    case (Inr converged)
    show ?thesis
    proof (cases converged)
      case True
      with Inr p "1.prems"(2) have "res = Inr ?rp1" "h' = h1"
        by (subst (asm) simplify_loop_h.simps; simp add: Let_def)+
      with ph Inr True show ?thesis by (subst simplify_loop.simps) (simp add: Let_def)
    next
      case False
      with Inr p "1.prems"(2) have "simplify_loop_h ?rp1 h1 = (res, h')"
        by (subst (asm) simplify_loop_h.simps) (simp add: Let_def)
      from "1.IH" [OF refl p [symmetric] Inr False d1 this] ph Inr False show ?thesis
        by (subst simplify_loop.simps) (simp add: Let_def)
    qed
  qed
qed

definition allocated1 :: "heap \<Rightarrow> nat \<Rightarrow> bool" where
  "allocated1 h a = (a < next_gadget h \<and> object_paulis (gadget_at h a) < next_list h)"

lemma copy_h_old:
  "allocated1 h b \<Longrightarrow> copy_h a h = (g, h') \<Longrightarrow>
     gadget_value h' b = gadget_value h b \<and> allocated1 h' b"
  by (auto simp: allocated1_def copy_h_def Let_def gadget_value_def)

lemma copy_h_new:
  assumes "copy_h a h = (g, h')"
  shows "gadget_value h' g = gadget_value h a" and "allocated1 h' g" and "g = next_gadget h"
    and "next_gadget h' = Suc (next_gadget h)" and "polynomial_at h' = polynomial_at h"
    and "next_polynomial h' = next_polynomial h"
  using assms by (auto simp: allocated1_def copy_h_def Let_def gadget_value_def)

lemma copy_all_old:
  "allocated1 h b \<Longrightarrow> copy_all as h = (gs, h') \<Longrightarrow>
     gadget_value h' b = gadget_value h b \<and> allocated1 h' b"
proof (induction as arbitrary: h gs)
  case Nil
  then show ?case by simp
next
  case (Cons a as)
  from Cons.prems(2) obtain g h1 gs1 where
    c: "copy_h a h = (g, h1)" and r: "copy_all as h1 = (gs1, h')"
    by (auto split: prod.splits)
  from copy_h_old [OF Cons.prems(1) c] Cons.IH [OF _ r] show ?case by simp
qed

lemma copy_all_new:
  "\<forall>a \<in> set as. allocated1 h a \<Longrightarrow> copy_all as h = (gs, h') \<Longrightarrow>
     view h' gs = view h as \<and> distinct gs \<and> (\<forall>g \<in> set gs. next_gadget h \<le> g) \<and>
     polynomial_at h' = polynomial_at h \<and> next_polynomial h' = next_polynomial h"
proof (induction as arbitrary: h gs)
  case Nil
  then show ?case by (simp add: view_def)
next
  case (Cons a as)
  from Cons.prems(2) obtain g h1 gs1 where
    c: "copy_h a h = (g, h1)" and r: "copy_all as h1 = (gs1, h')" and gs: "gs = g # gs1"
    by (auto split: prod.splits)
  note new = copy_h_new [OF c]
  have old: "gadget_value h1 b = gadget_value h b \<and> allocated1 h1 b" if "allocated1 h b" for b
    using copy_h_old [OF that c] .
  with Cons.prems(1) have al: "\<forall>a \<in> set as. allocated1 h1 a" by simp
  note ih = Cons.IH [OF al r]
  have "view h1 as = view h as" using old Cons.prems(1) by (simp add: view_def)
  moreover have "gadget_value h' g = gadget_value h a"
    using copy_all_old [OF new(2) r] new(1) by simp
  moreover have "g \<notin> set gs1" using ih new by auto
  moreover have "\<forall>g \<in> set gs1. next_gadget h \<le> g" using ih new by auto
  ultimately show ?case using ih new gs by (simp add: view_def)
qed

lemma set_angle_polynomial [simp]:
  "polynomial_at (set_angle a t h) = polynomial_at h"
  "next_polynomial (set_angle a t h) = next_polynomial h"
  by (simp_all add: set_angle_def)

lemma step_polynomial:
  "propagate_step_h rp idx (c, h) = (res, h') \<Longrightarrow>
     polynomial_at h' = polynomial_at h \<and> next_polynomial h' = next_polynomial h"
  by (drule propagate_step_h_frame) (auto simp: merge_h_def Let_def)

lemma loop_polynomial:
  "propagate_loop_h rp idxs (c, h) = (res, h') \<Longrightarrow>
     polynomial_at h' = polynomial_at h \<and> next_polynomial h' = next_polynomial h"
proof (induction idxs arbitrary: c h)
  case Nil
  then show ?case by simp
next
  case (Cons idx idxs)
  obtain r1 h1 where s: "propagate_step_h rp idx (c, h) = (r1, h1)"
    by (cases "propagate_step_h rp idx (c, h)")
  note sp = step_polynomial [OF s]
  show ?case
  proof (cases r1)
    case (Inl e)
    with s Cons.prems sp show ?thesis by simp
  next
    case (Inr c1)
    with s Cons.prems have "propagate_loop_h rp idxs (c1, h1) = (res, h')" by simp
    from Cons.IH [OF this] sp show ?thesis by simp
  qed
qed

lemma simplify_loop_polynomial:
  "simplify_loop_h rp h = (res, h') \<Longrightarrow>
     polynomial_at h' = polynomial_at h \<and> next_polynomial h' = next_polynomial h"
proof (induction rp h rule: simplify_loop_h.induct)
  case (1 remaining_poly h)
  let ?rp1 = "remove_collapsed_h remaining_poly h"
  obtain r1 h1 where p: "propagate_phase_h ?rp1 h = (r1, h1)"
    by (cases "propagate_phase_h ?rp1 h")
  then have lp: "polynomial_at h1 = polynomial_at h \<and> next_polynomial h1 = next_polynomial h"
    unfolding propagate_phase_h_def by (rule loop_polynomial)
  show ?case
  proof (cases r1)
    case (Inl e)
    with p "1.prems" lp show ?thesis
      by (subst (asm) simplify_loop_h.simps) (simp add: Let_def)
  next
    case (Inr converged)
    show ?thesis
    proof (cases converged)
      case True
      with Inr p "1.prems" lp show ?thesis
        by (subst (asm) simplify_loop_h.simps) (simp add: Let_def)
    next
      case False
      with Inr p "1.prems" have "simplify_loop_h ?rp1 h1 = (res, h')"
        by (subst (asm) simplify_loop_h.simps) (simp add: Let_def)
      from "1.IH" [OF refl p [symmetric] Inr False this] lp show ?thesis by simp
    qed
  qed
qed

lemma irshift_all_h_refines:
  "polynomial_at h p = \<lparr>object_num_qubits = n, object_gadgets = acc\<rparr> \<Longrightarrow>
   irshift_all_h p gs h = (res, h') \<Longrightarrow>
     irshift_all \<lparr>num_qubits = n, pauli_gadgets = view h acc\<rparr> (view h gs)
       = lift (polynomial_value h') res"
proof (induction gs arbitrary: h acc)
  case Nil
  then show ?case by (auto simp: polynomial_value_def view_def)
next
  case (Cons g gs)
  show ?case
  proof (cases "length (paulis (gadget_value h g)) = n")
    case False
    with Cons.prems have "res = Inl Exception"
      by (auto simp: irshift_h_def)
    with False show ?thesis by (simp add: view_def irshift_def)
  next
    case True
    define h1 where "h1 = h\<lparr>polynomial_at := (polynomial_at h)
        (p := \<lparr>object_num_qubits = n, object_gadgets = acc @ [g]\<rparr>)\<rparr>"
    from True Cons.prems have s: "irshift_h p g h = (Inr p, h1)"
      by (simp add: irshift_h_def h1_def)
    with Cons.prems(2) have r: "irshift_all_h p gs h1 = (res, h')" by simp
    have p1: "polynomial_at h1 p = \<lparr>object_num_qubits = n, object_gadgets = acc @ [g]\<rparr>"
      by (simp add: h1_def)
    have v: "view h1 = view h" by (rule ext) (simp add: view_def gadget_value_def h1_def)
    from Cons.IH [OF p1 r] True show ?thesis
      unfolding v view_def by (simp add: irshift_def)
  qed
qed

lemma simplify_h_refines:
  assumes "\<forall>a \<in> set (object_gadgets (polynomial_at h pp)). allocated1 h a"
    and "simplify_h pp h = (res, h')"
  shows "simplify_pauli_polynomial (polynomial_value h pp) = lift (polynomial_value h') res"
proof -
  let ?as = "object_gadgets (polynomial_at h pp)"
  obtain rp h1 where c: "copy_all ?as h = (rp, h1)"
    by (cases "copy_all ?as h")
  note cn = copy_all_new [OF assms(1) c]
  obtain r2 h2 where l: "simplify_loop_h rp h1 = (r2, h2)"
    by (cases "simplify_loop_h rp h1")
  from cn have d: "distinct rp" by simp
  note lr = simplify_loop_refines [OF d l]
  note lp = simplify_loop_polynomial [OF l]
  have start: "simplify_loop (map copy (pauli_gadgets (polynomial_value h pp))) = lift (view h2) r2"
    using lr cn by (simp add: polynomial_value_def view_def o_def)
  show ?thesis
  proof (cases r2)
    case (Inl e)
    with c l assms(2) have "res = Inl e" by (simp add: simplify_h_def)
    with start Inl show ?thesis by (simp add: simplify_pauli_polynomial_def)
  next
    case (Inr rp2)
    let ?n = "object_num_qubits (polynomial_at h pp)"
    define p where "p = next_polynomial h2"
    define h3 where "h3 = h2\<lparr>polynomial_at := (polynomial_at h2)
        (p := \<lparr>object_num_qubits = ?n, object_gadgets = []\<rparr>), next_polynomial := Suc p\<rparr>"
    have n: "new_polynomial (object_num_qubits (polynomial_at h2 pp)) h2 = (p, h3)"
      using lp cn by (simp add: new_polynomial_def p_def h3_def Let_def)
    with c l Inr assms(2) have i: "irshift_all_h p rp2 h3 = (res, h')"
      by (simp add: simplify_h_def)
    have p3: "polynomial_at h3 p = \<lparr>object_num_qubits = ?n, object_gadgets = []\<rparr>"
      by (simp add: h3_def)
    have v: "view h3 = view h2" by (rule ext) (simp add: view_def gadget_value_def h3_def)
    from irshift_all_h_refines [OF p3 i] have
      "irshift_all \<lparr>num_qubits = ?n, pauli_gadgets = []\<rparr> (view h2 rp2)
         = lift (polynomial_value h') res"
      unfolding v view_def by simp
    with start Inr show ?thesis
      by (simp add: simplify_pauli_polynomial_def polynomial_value_def)
  qed
qed

section \<open>Claim about the input of simplification\<close>

text \<open>
  C10: \<open>simplify_pauli_polynomial\<close> never modifies its input. In the store model every
  gadget object, Pauli list and polynomial object that exists before the call is the same
  after it, whatever the input shares between its gadgets and also when the call raises:
  every write of the call goes to an object the call has allocated itself.
\<close>

theorem simplify_leaves_input_untouched: "preserves h (snd (simplify_h pp h))"
proof -
  obtain rp h1 where c: "copy_all (object_gadgets (polynomial_at h pp)) h = (rp, h1)"
    by (cases "copy_all (object_gadgets (polynomial_at h pp)) h")
  from preserves_copy_all [OF preserves_refl c]
  have p1: "preserves h h1" and fresh: "\<forall>g \<in> set rp. next_gadget h \<le> g" by simp_all
  obtain r2 h2 where l: "simplify_loop_h rp h1 = (r2, h2)"
    by (cases "simplify_loop_h rp h1")
  from preserves_simplify_loop [OF p1 fresh l] have p2: "preserves h h2" .
  show ?thesis
  proof (cases r2)
    case (Inl e)
    with c l p2 show ?thesis by (simp add: simplify_h_def)
  next
    case (Inr rp2)
    obtain p h3 where n: "new_polynomial (object_num_qubits (polynomial_at h2 pp)) h2 = (p, h3)"
      by (cases "new_polynomial (object_num_qubits (polynomial_at h2 pp)) h2")
    from preserves_new_polynomial [OF p2 n] have p3: "preserves h h3" and np: "next_polynomial h \<le> p"
      by simp_all
    obtain r4 h4 where i: "irshift_all_h p rp2 h3 = (r4, h4)"
      by (cases "irshift_all_h p rp2 h3")
    from preserves_irshift_all_h [OF p3 np i] have "preserves h h4" .
    with c l Inr n i show ?thesis by (simp add: simplify_h_def)
  qed
qed

text \<open>
  A store with one polynomial of two gadgets \<open>[Z, Z]\<close>, of angles 1 and 2: the call merges
  its copies, and the two gadgets and the polynomial of the input are as before.
\<close>

definition example_heap :: heap where
  "example_heap =
     \<lparr>gadget_at = (\<lambda>_. \<lparr>object_angle = 0, object_paulis = 0\<rparr>)
         (0 := \<lparr>object_angle = 1, object_paulis = 0\<rparr>,
          1 := \<lparr>object_angle = 2, object_paulis = 1\<rparr>),
      paulis_at = (\<lambda>_. [])(0 := [Z, Z], 1 := [Z, Z]),
      polynomial_at = (\<lambda>_. \<lparr>object_num_qubits = 0, object_gadgets = []\<rparr>)
         (0 := \<lparr>object_num_qubits = 2, object_gadgets = [0, 1]\<rparr>),
      next_gadget = 2, next_list = 2, next_polynomial = 1\<rparr>"

theorem simplify_leaves_input_untouched_witness:
  "gadget_value (snd (simplify_h 0 example_heap)) 0 = \<lparr>angle = 1, paulis = [Z, Z]\<rparr> \<and>
   gadget_value (snd (simplify_h 0 example_heap)) 1 = \<lparr>angle = 2, paulis = [Z, Z]\<rparr> \<and>
   polynomial_at (snd (simplify_h 0 example_heap)) 0
     = \<lparr>object_num_qubits = 2, object_gadgets = [0, 1]\<rparr>"
proof -
  let ?h = "snd (simplify_h 0 example_heap)"
  from simplify_leaves_input_untouched [of example_heap 0]
  have g: "\<forall>a. a < 2 \<longrightarrow> gadget_at ?h a = gadget_at example_heap a"
    and l: "\<forall>l. l < 2 \<longrightarrow> paulis_at ?h l = paulis_at example_heap l"
    and p: "\<forall>p. p < 1 \<longrightarrow> polynomial_at ?h p = polynomial_at example_heap p"
    unfolding preserves_def by (simp_all add: example_heap_def)
  from g have g0: "gadget_at ?h 0 = \<lparr>object_angle = 1, object_paulis = 0\<rparr>"
    and g1: "gadget_at ?h 1 = \<lparr>object_angle = 2, object_paulis = 1\<rparr>"
    by (simp_all add: example_heap_def)
  from l have l0: "paulis_at ?h 0 = [Z, Z]" and l1: "paulis_at ?h 1 = [Z, Z]"
    by (simp_all add: example_heap_def)
  from p have "polynomial_at ?h 0 = \<lparr>object_num_qubits = 2, object_gadgets = [0, 1]\<rparr>"
    by (simp add: example_heap_def)
  with g0 g1 l0 l1 show ?thesis by (simp add: gadget_value_def)
qed

section \<open>Minimal CX assignment\<close>

record Topology =
  dist_of :: "nat \<Rightarrow> nat \<Rightarrow> int"
  shortest_path :: "nat \<Rightarrow> nat \<Rightarrow> nat list"
  to_nx :: "(nat \<times> nat) list"

fun ladder_loop :: "nat \<Rightarrow> nat list \<Rightarrow> (nat \<times> nat) list" where
  "ladder_loop prev [] = []"
| "ladder_loop prev (current # path) = (current, prev) # (prev, current) # ladder_loop current path"

definition decompose_cnot_ladder_z :: "nat \<Rightarrow> nat \<Rightarrow> Topology \<Rightarrow> error + (nat \<times> nat) list" where
  "decompose_cnot_ladder_z ctrl trg arch =
     (let path = shortest_path arch ctrl trg in
      if length path < 2 then Inl IndexError
      else Inr (rev (ladder_loop ctrl (butlast (tl path)) @ [(path ! (length path - 2), trg)])))"

type_synonym spanning = "nat \<Rightarrow> (nat \<times> nat \<times> int) list \<Rightarrow> (nat \<times> nat) list"

definition graph_edges :: "int list \<Rightarrow> Topology \<Rightarrow> (nat \<times> nat \<times> int) list" where
  "graph_edges column arch =
     concat (map (\<lambda>i. map (\<lambda>j. (i, j, 4 * dist_of arch j i - 2))
                          (filter (\<lambda>j. column ! i \<noteq> 0 \<and> column ! j \<noteq> 0) [Suc i..<length column]))
                 [0..<length column])"

text \<open>
  \<open>incident[q]\<close> is a Python set of edges. It is kept as a list without repetitions, in the
  order of insertion; the order in which Python walks a set is not fixed by the language,
  and it decides the order of the entries of the ladder, not their number.
\<close>

definition set_add :: "'a \<Rightarrow> 'a list \<Rightarrow> 'a list" where
  "set_add x xs = (if x \<in> set xs then xs else xs @ [x])"

fun build_incident ::
  "nat \<Rightarrow> (nat \<times> nat) list \<Rightarrow> (nat \<Rightarrow> (nat \<times> nat) list)
     \<Rightarrow> error + (nat \<Rightarrow> (nat \<times> nat) list)" where
  "build_incident n [] incident = Inr incident"
| "build_incident n ((fst1, snd1) # mst_branches) incident =
     (if \<not> fst1 < n then Inl KeyError
      else let incident1 = incident(fst1 := set_add (fst1, snd1) (incident fst1)) in
        if \<not> snd1 < n then Inl KeyError
        else build_incident n mst_branches
               (incident1(snd1 := set_add (snd1, fst1) (incident1 snd1))))"

fun argmax_loop :: "int \<Rightarrow> nat \<Rightarrow> nat \<Rightarrow> int list \<Rightarrow> nat" where
  "argmax_loop best pos i [] = pos"
| "argmax_loop best pos i (x # xs) =
     (if best < x then argmax_loop x i (Suc i) xs else argmax_loop best pos (Suc i) xs)"

definition argmax :: "int list \<Rightarrow> error + nat" where
  "argmax column = (case column of [] \<Rightarrow> Inl ValueError | x # xs \<Rightarrow> Inr (argmax_loop x 0 1 xs))"

fun visit_edges ::
  "Topology \<Rightarrow> (nat \<times> nat) list \<Rightarrow> nat set \<Rightarrow> error + ((nat \<times> nat) list \<times> nat list)" where
  "visit_edges arch [] visited = Inr ([], [])"
| "visit_edges arch ((tail, head) # edges) visited =
     (if head \<notin> visited
      then (case decompose_cnot_ladder_z head tail arch of
              Inl e \<Rightarrow> Inl e
            | Inr segment \<Rightarrow>
                (case visit_edges arch edges visited of
                   Inl e \<Rightarrow> Inl e
                 | Inr (ladder, heads) \<Rightarrow> Inr (segment @ ladder, head # heads)))
      else visit_edges arch edges visited)"

lemma visit_edges_heads:
  "visit_edges arch edges visited = Inr (ladder, heads) \<Longrightarrow> \<forall>h \<in> set heads. h \<notin> visited"
  by (induction edges arbitrary: ladder heads)
     (auto split: if_splits sum.splits prod.splits)

function bfs ::
  "nat \<Rightarrow> (nat \<Rightarrow> (nat \<times> nat) list) \<Rightarrow> Topology \<Rightarrow> nat list \<Rightarrow> nat set \<Rightarrow> (nat \<times> nat) list
     \<Rightarrow> error + (nat \<times> nat) list" where
  "bfs n incident arch queue visited cnot_ladder =
     (case queue of
        [] \<Rightarrow> Inr cnot_ladder
      | q # rest \<Rightarrow>
          if \<not> q < n then Inl KeyError
          else (case visit_edges arch (incident q) (insert q visited) of
                  Inl e \<Rightarrow> Inl e
                | Inr (ladder, heads) \<Rightarrow>
                    bfs n incident arch (rest @ heads) (insert q visited) (cnot_ladder @ ladder)))"
  by pat_completeness auto
termination
proof (relation "measures [\<lambda>(n, incident, arch, queue, visited, cnot_ladder). card ({0..<n} - visited),
                           \<lambda>(n, incident, arch, queue, visited, cnot_ladder).
                              length (filter (\<lambda>x. x \<in> visited) queue)]")
  show "wf (measures [\<lambda>(n, incident, arch, queue, visited, cnot_ladder). card ({0..<n} - visited),
                           \<lambda>(n, incident, arch, queue, visited, cnot_ladder).
                              length (filter (\<lambda>x. x \<in> visited) queue)])"
    by simp
next
  fix n :: nat and incident :: "nat \<Rightarrow> (nat \<times> nat) list" and arch :: Topology
    and queue :: "nat list" and visited :: "nat set" and cnot_ladder :: "(nat \<times> nat) list"
    and q rest x2 ladder heads
  assume queue: "queue = q # rest" and q: "\<not> \<not> q < n"
    and v: "visit_edges arch (incident q) (insert q visited) = Inr x2"
    and x2: "(ladder, heads) = x2"
  from v x2 have "visit_edges arch (incident q) (insert q visited) = Inr (ladder, heads)" by simp
  from visit_edges_heads [OF this] have fresh: "\<forall>h \<in> set heads. h \<notin> insert q visited" .
  show "((n, incident, arch, rest @ heads, insert q visited, cnot_ladder @ ladder),
         n, incident, arch, queue, visited, cnot_ladder)
        \<in> measures [\<lambda>(n, incident, arch, queue, visited, cnot_ladder). card ({0..<n} - visited),
                     \<lambda>(n, incident, arch, queue, visited, cnot_ladder).
                        length (filter (\<lambda>x. x \<in> visited) queue)]"
  proof (cases "q \<in> visited")
    case True
    then have same: "insert q visited = visited" by (rule insert_absorb)
    from fresh same have "filter (\<lambda>x. x \<in> visited) heads = []"
      unfolding filter_empty_conv by simp
    then have "length (filter (\<lambda>x. x \<in> visited) (rest @ heads))
        < length (filter (\<lambda>x. x \<in> visited) queue)"
      using True queue by simp
    then show ?thesis unfolding same by (simp only: in_measures split_conv) simp
  next
    case False
    have "{0..<n} - insert q visited \<subset> {0..<n} - visited"
    proof
      show "{0..<n} - insert q visited \<subseteq> {0..<n} - visited" by blast
      have "q \<in> {0..<n} - visited" using False q by simp
      moreover have "q \<notin> {0..<n} - insert q visited" by simp
      ultimately show "{0..<n} - insert q visited \<noteq> {0..<n} - visited" by blast
    qed
    moreover have "finite ({0..<n} - visited)" by simp
    ultimately have "card ({0..<n} - insert q visited) < card ({0..<n} - visited)"
      by (rule psubset_card_mono [rotated])
    then show ?thesis by (simp only: in_measures split_conv) simp
  qed
qed

declare bfs.simps [simp del]

definition find_minimal_cx_assignment ::
  "spanning \<Rightarrow> int list \<Rightarrow> Topology \<Rightarrow> nat option \<Rightarrow> error + ((nat \<times> nat) list \<times> nat)" where
  "find_minimal_cx_assignment minimum_spanning_edges column arch q0 =
     (if \<not> list_all (\<lambda>v. v = 0 \<or> v = 1) column then Inl Exception
      else
        let mst_branches = minimum_spanning_edges (length column) (graph_edges column arch) in
        case build_incident (length column) mst_branches (\<lambda>q. []) of
          Inl e \<Rightarrow> Inl e
        | Inr incident \<Rightarrow>
            (case (case q0 of None \<Rightarrow> argmax column | Some q \<Rightarrow> Inr q) of
               Inl e \<Rightarrow> Inl e
             | Inr q \<Rightarrow>
                 (case bfs (length column) incident arch [q] {} [] of
                    Inl e \<Rightarrow> Inl e
                  | Inr cnot_ladder \<Rightarrow> Inr (cnot_ladder, q))))"

text \<open>
  Modelled from the spec: \<open>Topology.complete\<close> of \<open>pauliopt.topologies\<close>, which is not
  among the sources. On a complete topology every two different qubits are at distance 1
  and their shortest path is the pair itself.
\<close>

definition complete :: "nat \<Rightarrow> Topology" where
  "complete n =
     \<lparr>dist_of = (\<lambda>u v. if u = v then 0 else 1),
      shortest_path = (\<lambda>u v. if u = v then [u] else [u, v]),
      to_nx = concat (map (\<lambda>i. map (\<lambda>j. (i, j)) [Suc i..<n]) [0..<n])\<rparr>"

subsection \<open>Which exceptions the assignment raises\<close>

lemma decompose_error:
  "decompose_cnot_ladder_z ctrl trg arch = Inl e \<Longrightarrow> e = IndexError"
  by (simp add: decompose_cnot_ladder_z_def Let_def split: if_splits)

lemma visit_edges_error:
  "visit_edges arch edges visited = Inl e \<Longrightarrow> e = IndexError"
  by (induction edges)
     (auto split: if_splits sum.splits prod.splits dest: decompose_error)

lemma bfs_error:
  "bfs n incident arch queue visited cnot_ladder = Inl e \<Longrightarrow> e = KeyError \<or> e = IndexError"
proof (induction n incident arch queue visited cnot_ladder rule: bfs.induct)
  case (1 n incident arch queue visited cnot_ladder)
  show ?case
  proof (cases queue)
    case Nil
    with "1.prems" show ?thesis by (subst (asm) bfs.simps) simp
  next
    case (Cons q rest)
    show ?thesis
    proof (cases "q < n")
      case False
      with Cons "1.prems" show ?thesis by (subst (asm) bfs.simps) simp
    next
      case True
      show ?thesis
      proof (cases "visit_edges arch (incident q) (insert q visited)")
        case (Inl e')
        with Cons True "1.prems" have "e = e'" by (subst (asm) bfs.simps) simp
        with Inl visit_edges_error show ?thesis by blast
      next
        case (Inr x2)
        obtain ladder heads where x2: "x2 = (ladder, heads)" by (cases x2)
        with Cons True Inr "1.prems"
        have "bfs n incident arch (rest @ heads) (insert q visited) (cnot_ladder @ ladder) = Inl e"
          by (subst (asm) bfs.simps) simp
        with "1.IH" [OF Cons _ Inr x2 [symmetric]] True show ?thesis by simp
      qed
    qed
  qed
qed

lemma build_incident_error:
  "build_incident n mst_branches incident = Inl e \<Longrightarrow> e = KeyError"
  by (induction n mst_branches incident rule: build_incident.induct)
     (auto simp: Let_def split: if_splits)

lemma argmax_error: "argmax column = Inl e \<Longrightarrow> e = ValueError"
  by (simp add: argmax_def split: list.splits)

text \<open>
  C7, amended: the validation is the first thing the function does, and its exception is
  raised exactly when the vector holds a value other than 0 and 1; on a binary vector the
  validation never fails. Raising means that no ladder is returned. Other exceptions
  remain possible on a binary vector, as the counterexample below shows.
\<close>

theorem validation_error_iff:
  "find_minimal_cx_assignment minimum_spanning_edges column arch q0 = Inl Exception
     \<longleftrightarrow> (\<exists>v \<in> set column. v \<noteq> 0 \<and> v \<noteq> 1)"
proof (cases "list_all (\<lambda>v. v = 0 \<or> v = 1) column")
  case False
  then show ?thesis
    by (auto simp: find_minimal_cx_assignment_def list_all_iff)
next
  case True
  have "find_minimal_cx_assignment minimum_spanning_edges column arch q0 \<noteq> Inl Exception"
  proof
    assume a: "find_minimal_cx_assignment minimum_spanning_edges column arch q0 = Inl Exception"
    let ?b = "build_incident (length column)
        (minimum_spanning_edges (length column) (graph_edges column arch)) (\<lambda>q. [])"
    show False
    proof (cases ?b)
      case (Inl e)
      with a True build_incident_error [OF Inl] show False
        by (simp add: find_minimal_cx_assignment_def Let_def)
    next
      case (Inr incident)
      let ?q = "case q0 of None \<Rightarrow> argmax column | Some q \<Rightarrow> Inr q"
      show False
      proof (cases ?q)
        case q: (Inl e)
        then have "e = ValueError" by (cases q0) (auto dest: argmax_error)
        with a True Inr q show False
          by (simp add: find_minimal_cx_assignment_def Let_def)
      next
        case q: (Inr root)
        show False
        proof (cases "bfs (length column) incident arch [root] {} []")
          case (Inl e)
          with a True Inr q bfs_error [OF Inl] show False
            by (auto simp: find_minimal_cx_assignment_def Let_def)
        next
          case r: (Inr ladder)
          with a True Inr q show False
            by (simp add: find_minimal_cx_assignment_def Let_def)
        qed
      qed
    qed
  qed
  with True show ?thesis by (auto simp: list_all_iff)
qed

text \<open>
  C7, as the spec states it: the function raises if and only if the vector is not binary.
  On the binary vector \<open>[1]\<close> with the root \<open>q0 = 1\<close> the lookup \<open>incident[q]\<close> raises
  \<open>KeyError\<close>, and on the empty vector \<open>np.argmax\<close> raises \<open>ValueError\<close>.
\<close>

theorem binary_vector_can_raise:
  "list_all (\<lambda>v. v = 0 \<or> v = 1) [1 :: int] \<and>
   find_minimal_cx_assignment (\<lambda>n edges. []) [1] (complete 1) (Some 1) = Inl KeyError \<and>
   find_minimal_cx_assignment (\<lambda>n edges. []) [] (complete 0) None = Inl ValueError"
  by (simp add: find_minimal_cx_assignment_def argmax_def bfs.simps)

subsection \<open>Vectors with at most one active qubit\<close>

lemma two_filtered:
  assumes "i < j" "j < length xs" "P (xs ! i)" "P (xs ! j)"
  shows "2 \<le> length (filter P xs)"
proof -
  have "xs ! i \<in> set (take j xs)" using assms(1,2) by (auto simp: in_set_conv_nth)
  with assms(3) have "filter P (take j xs) \<noteq> []" by (auto simp: filter_empty_conv)
  then have a: "1 \<le> length (filter P (take j xs))" by (cases "filter P (take j xs)") simp_all
  have "xs ! j \<in> set (drop j xs)" using assms(2) by (auto simp: in_set_conv_nth intro: exI [of _ 0])
  with assms(4) have "filter P (drop j xs) \<noteq> []" by (auto simp: filter_empty_conv)
  then have b: "1 \<le> length (filter P (drop j xs))" by (cases "filter P (drop j xs)") simp_all
  have "filter P xs = filter P (take j xs) @ filter P (drop j xs)"
    by (metis append_take_drop_id filter_append)
  with a b show ?thesis by simp
qed

lemma graph_edges_few:
  assumes "length (filter (\<lambda>v. v \<noteq> 0) column) \<le> 1"
  shows "graph_edges column arch = []"
proof -
  have "filter (\<lambda>j. column ! i \<noteq> 0 \<and> column ! j \<noteq> 0) [Suc i..<length column] = []" for i
  proof (rule ccontr)
    assume "filter (\<lambda>j. column ! i \<noteq> 0 \<and> column ! j \<noteq> 0) [Suc i..<length column] \<noteq> []"
    then obtain j where "i < j" "j < length column" "column ! i \<noteq> 0" "column ! j \<noteq> 0"
      by (auto simp: filter_empty_conv Suc_le_eq)
    from two_filtered [of i j column "\<lambda>v. v \<noteq> 0", OF this] assms show False by simp
  qed
  then show ?thesis by (simp add: graph_edges_def)
qed

lemma argmax_loop_bound: "pos < i \<Longrightarrow> argmax_loop best pos i xs < i + length xs"
proof (induction xs arbitrary: best pos i)
  case Nil
  then show ?case by simp
next
  case (Cons x xs)
  from Cons.IH [of i "Suc i" x] Cons.IH [of pos "Suc i" best] Cons.prems
  show ?case by simp
qed

lemma argmax_bound: "column \<noteq> [] \<Longrightarrow> \<exists>q. argmax column = Inr q \<and> q < length column"
  using argmax_loop_bound [of 0 1] by (cases column) (auto simp: argmax_def)

lemma bfs_no_edges:
  "bfs n (\<lambda>q. []) arch [q] {} [] = (if q < n then Inr [] else Inl KeyError)"
  by (simp add: bfs.simps)

text \<open>
  C8: on a binary vector with no or one active qubit the ladder that is returned is empty,
  for every topology and every root; with the default root and a vector that is not empty
  the function does return. The graph has no edge then, and a spanning forest of a graph
  without edges has none.
\<close>

theorem few_active_qubits_empty_ladder:
  "list_all (\<lambda>v. v = 0 \<or> v = 1) column \<Longrightarrow> length (filter (\<lambda>v. v \<noteq> 0) column) \<le> 1 \<Longrightarrow>
   minimum_spanning_edges (length column) [] = [] \<Longrightarrow>
     (\<forall>cnot_ladder q. find_minimal_cx_assignment minimum_spanning_edges column arch q0
          = Inr (cnot_ladder, q) \<longrightarrow> cnot_ladder = []) \<and>
     (column \<noteq> [] \<and> q0 = None \<longrightarrow>
        (\<exists>q. find_minimal_cx_assignment minimum_spanning_edges column arch q0 = Inr ([], q)))"
proof -
  assume b: "list_all (\<lambda>v. v = 0 \<or> v = 1) column"
    and few: "length (filter (\<lambda>v. v \<noteq> 0) column) \<le> 1"
    and m: "minimum_spanning_edges (length column) [] = []"
  let ?root = "case q0 of None \<Rightarrow> argmax column | Some q \<Rightarrow> Inr q"
  have f: "find_minimal_cx_assignment minimum_spanning_edges column arch q0 =
      (case ?root of Inl e \<Rightarrow> Inl e
       | Inr q \<Rightarrow> if q < length column then Inr ([], q) else Inl KeyError)"
    using b m by (cases ?root)
      (simp_all add: find_minimal_cx_assignment_def graph_edges_few [OF few] bfs_no_edges)
  have first: "\<forall>cnot_ladder q. find_minimal_cx_assignment minimum_spanning_edges column arch q0
          = Inr (cnot_ladder, q) \<longrightarrow> cnot_ladder = []"
    unfolding f by (cases ?root) (auto split: if_splits)
  have second: "\<exists>q. find_minimal_cx_assignment minimum_spanning_edges column arch q0 = Inr ([], q)"
    if "column \<noteq> [] \<and> q0 = None"
  proof -
    from that argmax_bound obtain q where "argmax column = Inr q" "q < length column" by blast
    with that show ?thesis unfolding f by simp
  qed
  from first second show ?thesis by blast
qed

theorem few_active_qubits_empty_ladder_witness:
  "list_all (\<lambda>v. v = 0 \<or> v = 1) [0, 1, 0 :: int] \<and>
   length (filter (\<lambda>v. v \<noteq> 0) [0, 1, 0 :: int]) \<le> 1 \<and>
   find_minimal_cx_assignment (\<lambda>n edges. map (\<lambda>(i, j, w). (i, j)) edges) [0, 1, 0] (complete 3) None
     = Inr ([], 1)"
proof -
  let ?mst = "\<lambda>(n :: nat) (edges :: (nat \<times> nat \<times> int) list). map (\<lambda>(i, j, w). (i, j)) edges"
  have b: "list_all (\<lambda>v. v = 0 \<or> v = 1) [0, 1, 0 :: int]" by simp
  have few: "length (filter (\<lambda>v. v \<noteq> 0) [0, 1, 0 :: int]) \<le> 1" by simp
  have m: "?mst (length [0, 1, 0 :: int]) [] = []" by simp
  from few_active_qubits_empty_ladder [of "[0, 1, 0]" ?mst "complete 3" None, OF b few m]
  obtain q where q: "find_minimal_cx_assignment ?mst [0, 1, 0] (complete 3) None = Inr ([], q)"
    by auto
  have "argmax [0, 1, 0] = Inr 1" by (simp add: argmax_def)
  with q have "q = 1"
    by (simp add: find_minimal_cx_assignment_def Let_def split: sum.splits)
  with q b few show ?thesis by simp
qed

subsection \<open>The ladder of one queue step\<close>

lemma length_ladder_loop: "length (ladder_loop prev path) = 2 * length path"
  by (induction path arbitrary: prev) simp_all

lemma decompose_length:
  "2 \<le> length (shortest_path arch ctrl trg) \<Longrightarrow>
     \<exists>segment. decompose_cnot_ladder_z ctrl trg arch = Inr segment \<and>
       length segment = 2 * (length (shortest_path arch ctrl trg) - 2) + 1"
  by (simp add: decompose_cnot_ladder_z_def Let_def length_ladder_loop)

definition unvisited_heads :: "(nat \<times> nat) list \<Rightarrow> nat set \<Rightarrow> nat list" where
  "unvisited_heads edges visited = filter (\<lambda>h. h \<notin> visited) (map snd edges)"

lemma visit_edges_Inr:
  "visit_edges arch edges visited = Inr (ladder, heads) \<Longrightarrow> heads = unvisited_heads edges visited"
  by (induction edges arbitrary: ladder heads)
     (auto simp: unvisited_heads_def split: if_splits sum.splits prod.splits)

lemma visit_edges_total:
  assumes "\<forall>(t, h) \<in> set edges. 2 \<le> length (shortest_path arch h t)"
  shows "\<exists>ladder. visit_edges arch edges visited = Inr (ladder, unvisited_heads edges visited) \<and>
           length (unvisited_heads edges visited) \<le> length ladder \<and>
           ((\<forall>(t, h) \<in> set edges. length (shortest_path arch h t) = 2) \<longrightarrow>
              length ladder = length (unvisited_heads edges visited))"
  using assms
proof (induction edges)
  case Nil
  then show ?case by (simp add: unvisited_heads_def)
next
  case (Cons e edges)
  obtain t h where e: "e = (t, h)" by (cases e)
  from Cons.prems have rest: "\<forall>(t, h) \<in> set edges. 2 \<le> length (shortest_path arch h t)"
    and here: "2 \<le> length (shortest_path arch h t)" using e by simp_all
  from Cons.IH [OF rest] obtain ladder where
    v: "visit_edges arch edges visited = Inr (ladder, unvisited_heads edges visited)" and
    le: "length (unvisited_heads edges visited) \<le> length ladder" and
    eq: "(\<forall>(t, h) \<in> set edges. length (shortest_path arch h t) = 2) \<longrightarrow>
              length ladder = length (unvisited_heads edges visited)"
    by blast
  from decompose_length [OF here] obtain segment where
    d: "decompose_cnot_ladder_z h t arch = Inr segment" and
    ls: "length segment = 2 * (length (shortest_path arch h t) - 2) + 1" by blast
  show ?case
  proof (cases "h \<in> visited")
    case True
    with e v le eq show ?thesis by (simp add: unvisited_heads_def)
  next
    case False
    with e v d have "visit_edges arch (e # edges) visited
        = Inr (segment @ ladder, unvisited_heads (e # edges) visited)"
      by (simp add: unvisited_heads_def)
    moreover have "length (unvisited_heads (e # edges) visited) \<le> length (segment @ ladder)"
      using False e le ls by (simp add: unvisited_heads_def)
    moreover have "length (segment @ ladder) = length (unvisited_heads (e # edges) visited)"
      if "\<forall>(t, h) \<in> set (e # edges). length (shortest_path arch h t) = 2"
      using that False e eq ls by (simp add: unvisited_heads_def)
    ultimately show ?thesis by blast
  qed
qed

subsection \<open>The incidence lists of the spanning edges\<close>

lemma set_set_add [simp]: "set (set_add x xs) = insert x (set xs)"
  by (auto simp: set_add_def)

lemma distinct_set_add [simp]: "distinct (set_add x xs) = distinct xs"
  by (simp add: set_add_def)

lemma build_incident_Inr:
  "build_incident n mst_branches incident0 = Inr incident \<Longrightarrow>
     (\<forall>(u, v) \<in> set mst_branches. u < n \<and> v < n) \<and>
     (\<forall>q. set (incident q) =
            set (incident0 q) \<union> {(q, h) | h. (q, h) \<in> set mst_branches \<or> (h, q) \<in> set mst_branches}) \<and>
     (\<forall>q. distinct (incident0 q) \<longrightarrow> distinct (incident q))"
proof (induction n mst_branches incident0 rule: build_incident.induct)
  case (1 n incident)
  then show ?case by simp
next
  case (2 n fst1 snd1 mst_branches incident0)
  from "2.prems" have b: "fst1 < n" "snd1 < n" by (auto simp: Let_def split: if_splits)
  define incident1 where "incident1 = incident0(fst1 := set_add (fst1, snd1) (incident0 fst1))"
  define incident2 where "incident2 = incident1(snd1 := set_add (snd1, fst1) (incident1 snd1))"
  from "2.prems" b have r: "build_incident n mst_branches incident2 = Inr incident"
    by (simp add: Let_def incident1_def incident2_def)
  from b have nb: "\<not> \<not> fst1 < n" "\<not> \<not> snd1 < n" by simp_all
  note ih = "2.IH" [OF nb(1) incident1_def nb(2) r [unfolded incident2_def],
      folded incident2_def]
  have s2: "set (incident2 q) = set (incident0 q) \<union>
      {(q, h) | h. (q, h) = (fst1, snd1) \<or> (h, q) = (fst1, snd1)}" for q
    by (auto simp: incident1_def incident2_def)
  have d2: "distinct (incident0 q) \<longrightarrow> distinct (incident2 q)" for q
    by (simp add: incident1_def incident2_def)
  from ih s2 d2 b show ?case by auto
qed

lemma build_incident_total:
  "\<forall>(u, v) \<in> set mst_branches. u < n \<and> v < n \<Longrightarrow>
     \<exists>incident. build_incident n mst_branches incident0 = Inr incident"
  by (induction n mst_branches incident0 rule: build_incident.induct) (auto simp: Let_def)

subsection \<open>The traversal of the spanning edges\<close>

definition linked :: "nat \<Rightarrow> (nat \<Rightarrow> (nat \<times> nat) list) \<Rightarrow> Topology \<Rightarrow> nat set \<Rightarrow> bool" where
  "linked n incident arch A \<longleftrightarrow>
     A \<subseteq> {..<n} \<and>
     (\<forall>q \<in> A. distinct (map snd (incident q)) \<and>
        (\<forall>(t, h) \<in> set (incident q). h \<in> A \<and> h \<noteq> q \<and> 2 \<le> length (shortest_path arch h t)))"

definition closed_under :: "(nat \<Rightarrow> (nat \<times> nat) list) \<Rightarrow> nat set \<Rightarrow> bool" where
  "closed_under incident V \<longleftrightarrow> (\<forall>v \<in> V. \<forall>(t, h) \<in> set (incident v). h \<in> V)"

definition reaches :: "(nat \<Rightarrow> (nat \<times> nat) list) \<Rightarrow> nat \<Rightarrow> nat set \<Rightarrow> bool" where
  "reaches incident start A \<longleftrightarrow> (\<forall>V. start \<in> V \<and> closed_under incident V \<longrightarrow> A \<subseteq> V)"

definition edges_of :: "(nat \<Rightarrow> (nat \<times> nat) list) \<Rightarrow> nat set \<Rightarrow> nat set set" where
  "edges_of incident A = (\<Union>q \<in> A. (\<lambda>(t, h). {q, h}) ` set (incident q))"

definition direct :: "(nat \<Rightarrow> (nat \<times> nat) list) \<Rightarrow> Topology \<Rightarrow> nat set \<Rightarrow> bool" where
  "direct incident arch A \<longleftrightarrow>
     (\<forall>q \<in> A. \<forall>(t, h) \<in> set (incident q). length (shortest_path arch h t) = 2)"

lemma linked_entry:
  assumes "linked n incident arch A" "q \<in> A" "(t, h) \<in> set (incident q)"
  shows "h \<in> A" and "h \<noteq> q" and "2 \<le> length (shortest_path arch h t)"
  using assms unfolding linked_def by fast+

lemma linked_node:
  assumes "linked n incident arch A" "q \<in> A"
  shows "distinct (map snd (incident q))" and "q < n"
  using assms unfolding linked_def by fast+

lemma linked_heads:
  assumes "linked n incident arch A" "q \<in> A"
  shows "set (unvisited_heads (incident q) V) \<subseteq> A"
    and "distinct (unvisited_heads (incident q) V)"
    and "q \<notin> set (unvisited_heads (incident q) V)"
    and "set (unvisited_heads (incident q) V) \<inter> V = {}"
    and "\<forall>(t, h) \<in> set (incident q). h \<in> V \<union> set (unvisited_heads (incident q) V)"
proof -
  note e = linked_entry [OF assms]
  show "set (unvisited_heads (incident q) V) \<subseteq> A"
    using e(1) by (auto simp: unvisited_heads_def)
  show "distinct (unvisited_heads (incident q) V)"
    using linked_node(1) [OF assms] by (simp add: unvisited_heads_def)
  show "q \<notin> set (unvisited_heads (incident q) V)"
    using e(2) by (fastforce simp: unvisited_heads_def)
  show "set (unvisited_heads (incident q) V) \<inter> V = {}"
    by (auto simp: unvisited_heads_def)
  show "\<forall>(t, h) \<in> set (incident q). h \<in> V \<union> set (unvisited_heads (incident q) V)"
    by (force simp: unvisited_heads_def)
qed

lemma bfs_step:
  assumes "linked n incident arch A" "q \<in> A"
  shows "\<exists>segment.
     visit_edges arch (incident q) (insert q visited)
       = Inr (segment, unvisited_heads (incident q) (insert q visited)) \<and>
     bfs n incident arch (q # rest) visited ladder
       = bfs n incident arch (rest @ unvisited_heads (incident q) (insert q visited))
           (insert q visited) (ladder @ segment) \<and>
     length (unvisited_heads (incident q) (insert q visited)) \<le> length segment \<and>
     (direct incident arch A \<longrightarrow>
        length segment = length (unvisited_heads (incident q) (insert q visited)))"
proof -
  from linked_entry [OF assms]
  have p: "\<forall>(t, h) \<in> set (incident q). 2 \<le> length (shortest_path arch h t)" by auto
  from assms have qn: "q < n" by (auto simp: linked_def)
  from visit_edges_total [OF p, of "insert q visited"] obtain segment where
    v: "visit_edges arch (incident q) (insert q visited)
       = Inr (segment, unvisited_heads (incident q) (insert q visited))" and
    le: "length (unvisited_heads (incident q) (insert q visited)) \<le> length segment" and
    eq: "(\<forall>(t, h) \<in> set (incident q). length (shortest_path arch h t) = 2) \<longrightarrow>
              length segment = length (unvisited_heads (incident q) (insert q visited))"
    by blast
  have "bfs n incident arch (q # rest) visited ladder
       = bfs n incident arch (rest @ unvisited_heads (incident q) (insert q visited))
           (insert q visited) (ladder @ segment)"
    using v qn by (subst bfs.simps) simp
  moreover have "length segment = length (unvisited_heads (incident q) (insert q visited))"
    if "direct incident arch A"
    using that eq assms(2) by (simp add: direct_def)
  ultimately show ?thesis using v le by blast
qed

text \<open>
  The traversal returns, and it has pushed every qubit it has reached: apart from the start
  each of them stands for at least one entry of the ladder.
\<close>

lemma bfs_lower:
  "linked n incident arch A \<Longrightarrow> finite visited \<Longrightarrow> set queue \<subseteq> A \<Longrightarrow> visited \<subseteq> A \<Longrightarrow>
     \<forall>v \<in> visited. \<forall>(t, h) \<in> set (incident v). h \<in> visited \<union> set queue \<Longrightarrow>
     card (visited \<union> set queue) \<le> length ladder + 1 \<Longrightarrow>
     \<exists>res V. bfs n incident arch queue visited ladder = Inr res \<and> closed_under incident V \<and>
        visited \<union> set queue \<subseteq> V \<and> finite V \<and> card V \<le> length res + 1"
proof (induction n incident arch queue visited ladder rule: bfs.induct)
  case (1 n incident arch queue visited ladder)
  note lk = "1.prems"(1)
  show ?case
  proof (cases queue)
    case Nil
    have "bfs n incident arch queue visited ladder = Inr ladder"
      using Nil by (subst bfs.simps) simp
    moreover have "closed_under incident visited"
      using "1.prems"(5) Nil by (simp add: closed_under_def)
    ultimately show ?thesis using "1.prems" Nil by auto
  next
    case (Cons q rest)
    with "1.prems" have qA: "q \<in> A" by simp
    let ?heads = "unvisited_heads (incident q) (insert q visited)"
    from bfs_step [OF lk qA, of visited rest ladder] obtain segment where
      v: "visit_edges arch (incident q) (insert q visited) = Inr (segment, ?heads)" and
      st: "bfs n incident arch (q # rest) visited ladder
         = bfs n incident arch (rest @ ?heads) (insert q visited) (ladder @ segment)" and
      le: "length ?heads \<le> length segment" by blast
    note hd = linked_heads [OF lk qA, of "insert q visited"]
    from qA lk have nn: "\<not> \<not> q < n" by (auto simp: linked_def)
    have f: "finite (insert q visited)" using "1.prems"(2) by simp
    have q1: "set (rest @ ?heads) \<subseteq> A" using "1.prems"(3) Cons hd(1) by auto
    have v1: "insert q visited \<subseteq> A" using "1.prems"(4) qA by simp
    have c1: "\<forall>v \<in> insert q visited. \<forall>(t, h) \<in> set (incident v).
        h \<in> insert q visited \<union> set (rest @ ?heads)"
    proof (intro ballI)
      fix v e assume v: "v \<in> insert q visited" and e: "e \<in> set (incident v)"
      obtain t h where th: "e = (t, h)" by (cases e)
      have "h \<in> insert q visited \<union> set (rest @ ?heads)"
      proof (cases "v = q")
        case True
        with hd(5) e th show ?thesis by auto
      next
        case False
        with v "1.prems"(5) e th Cons show ?thesis by auto
      qed
      with th show "case e of (t, h) \<Rightarrow> h \<in> insert q visited \<union> set (rest @ ?heads)" by simp
    qed
    have same: "insert q visited \<union> set (rest @ ?heads) = (visited \<union> set queue) \<union> set ?heads"
      using Cons by auto
    have "card ((visited \<union> set queue) \<union> set ?heads) \<le> card (visited \<union> set queue) + card (set ?heads)"
      by (rule card_Un_le)
    also have "\<dots> \<le> (length ladder + 1) + length ?heads"
      using "1.prems"(6) card_length [of ?heads] by simp
    finally have k1: "card (insert q visited \<union> set (rest @ ?heads)) \<le> length (ladder @ segment) + 1"
      using le same by simp
    from "1.IH" [OF Cons nn v refl lk f q1 v1 c1 k1] obtain res V where
      "bfs n incident arch (rest @ ?heads) (insert q visited) (ladder @ segment) = Inr res"
      "closed_under incident V" "insert q visited \<union> set (rest @ ?heads) \<subseteq> V"
      "finite V" "card V \<le> length res + 1"
      by blast
    with st Cons same show ?thesis by auto
  qed
qed

lemma finite_edges_of: "finite A \<Longrightarrow> finite (edges_of incident A)"
  by (simp add: edges_of_def)

lemma edges_of_head:
  "q \<in> A \<Longrightarrow> h \<in> set (unvisited_heads (incident q) V) \<Longrightarrow> {q, h} \<in> edges_of incident A"
  by (force simp: edges_of_def unvisited_heads_def)

lemma card_new_edges:
  assumes "finite F" "finite N" "q \<notin> N" "\<forall>e \<in> F. e \<subseteq> S" "N \<inter> S = {}"
  shows "card (F \<union> (\<lambda>h. {q, h}) ` N) = card F + card N"
proof -
  have inj: "inj_on (\<lambda>h. {q, h}) N"
    using assms(3) by (auto simp: inj_on_def doubleton_eq_iff)
  have dis: "F \<inter> (\<lambda>h. {q, h}) ` N = {}"
  proof (rule ccontr)
    assume "F \<inter> (\<lambda>h. {q, h}) ` N \<noteq> {}"
    then obtain h where "h \<in> N" "{q, h} \<in> F" by auto
    with assms(4) have "h \<in> S" by blast
    with \<open>h \<in> N\<close> assms(5) show False by blast
  qed
  have "card (F \<union> (\<lambda>h. {q, h}) ` N) = card F + card ((\<lambda>h. {q, h}) ` N)"
    using assms(1,2) dis by (intro card_Un_disjoint) simp_all
  with inj show ?thesis by (simp add: card_image)
qed

lemma closure_step:
  assumes lk: "linked n incident arch A" and qA: "q \<in> A"
    and c: "\<forall>v \<in> visited. \<forall>(t, h) \<in> set (incident v). h \<in> visited \<union> set (q # rest)"
  shows "\<forall>v \<in> insert q visited. \<forall>(t, h) \<in> set (incident v).
        h \<in> insert q visited \<union> set (rest @ unvisited_heads (incident q) (insert q visited))"
proof (intro ballI)
  fix v e assume v: "v \<in> insert q visited" and e: "e \<in> set (incident v)"
  let ?heads = "unvisited_heads (incident q) (insert q visited)"
  note hd = linked_heads [OF lk qA, of "insert q visited"]
  obtain t h where th: "e = (t, h)" by (cases e)
  have "h \<in> insert q visited \<union> set (rest @ ?heads)"
  proof (cases "v = q")
    case True
    with hd(5) e th show ?thesis by auto
  next
    case False
    with v c e th show ?thesis by auto
  qed
  with th show "case e of (t, h) \<Rightarrow> h \<in> insert q visited \<union> set (rest @ ?heads)" by simp
qed

text \<open>
  A state with an edge inside the reached qubits that was never used to reach one cannot
  end: the edges used to reach a qubit for the first time are one fewer than the qubits
  reached, and in the end all active qubits are reached, so the spanning edges would be
  at least as many as the active qubits.
\<close>

lemma bfs_surplus:
  "linked n incident arch A \<Longrightarrow> reaches incident start A \<Longrightarrow>
   card (edges_of incident A) < card A \<Longrightarrow>
   finite visited \<Longrightarrow> set queue \<subseteq> A \<Longrightarrow> visited \<subseteq> A \<Longrightarrow> start \<in> visited \<union> set queue \<Longrightarrow>
   \<forall>v \<in> visited. \<forall>(t, h) \<in> set (incident v). h \<in> visited \<union> set queue \<Longrightarrow>
   F \<subseteq> edges_of incident A \<Longrightarrow> \<forall>e \<in> F. e \<subseteq> visited \<union> set queue \<Longrightarrow>
   card F + 1 = card (visited \<union> set queue) \<Longrightarrow>
   x \<in> edges_of incident A \<Longrightarrow> x \<notin> F \<Longrightarrow> x \<subseteq> visited \<union> set queue \<Longrightarrow>
     bfs n incident arch queue visited ladder \<noteq> Inr res"
proof (induction n incident arch queue visited ladder arbitrary: F rule: bfs.induct)
  case (1 n incident arch queue visited ladder)
  note lk = "1.prems"(1) and rc = "1.prems"(2) and cnt = "1.prems"(3)
    and fin = "1.prems"(4) and qs = "1.prems"(5) and vs = "1.prems"(6) and st = "1.prems"(7)
    and cl = "1.prems"(8) and FE = "1.prems"(9) and FS = "1.prems"(10) and cF = "1.prems"(11)
    and xE = "1.prems"(12) and xF = "1.prems"(13) and xS = "1.prems"(14)
  from lk have An: "A \<subseteq> {..<n}" by (simp add: linked_def)
  then have finA: "finite A" by (rule finite_subset) simp
  have finE: "finite (edges_of incident A)" using finA by (rule finite_edges_of)
  have finF: "finite F" using FE finE by (rule finite_subset)
  show ?case
  proof (cases queue)
    case Nil
    have "closed_under incident visited" using cl Nil by (simp add: closed_under_def)
    with rc st Nil have "A \<subseteq> visited" by (simp add: reaches_def)
    with vs have "visited = A" by auto
    with cF Nil have "card F + 1 = card A" by simp
    moreover have "card (insert x F) \<le> card (edges_of incident A)"
      using xE FE finE by (intro card_mono) auto
    moreover have "card (insert x F) = card F + 1" using xF finF by simp
    ultimately have False using cnt by simp
    then show ?thesis ..
  next
    case (Cons q rest)
    with qs have qA: "q \<in> A" by simp
    let ?V = "insert q visited"
    let ?heads = "unvisited_heads (incident q) ?V"
    let ?S = "visited \<union> set queue"
    let ?N = "set ?heads - ?S"
    let ?F = "F \<union> (\<lambda>h. {q, h}) ` ?N"
    from bfs_step [OF lk qA, of visited rest ladder] obtain segment where
      v: "visit_edges arch (incident q) ?V = Inr (segment, ?heads)" and
      step: "bfs n incident arch (q # rest) visited ladder
         = bfs n incident arch (rest @ ?heads) ?V (ladder @ segment)" by blast
    note hd = linked_heads [OF lk qA, of ?V]
    from qA An have nn: "\<not> \<not> q < n" by auto
    have same: "?V \<union> set (rest @ ?heads) = ?S \<union> ?N" using Cons by auto
    have finS: "finite ?S" using fin by simp
    have qN: "q \<notin> ?N" using Cons by simp
    have f1: "finite ?V" using fin by simp
    have q1: "set (rest @ ?heads) \<subseteq> A" using qs Cons hd(1) by auto
    have v1: "?V \<subseteq> A" using vs qA by simp
    have s1: "start \<in> ?V \<union> set (rest @ ?heads)" using st same by auto
    have c1: "\<forall>v \<in> ?V. \<forall>(t, h) \<in> set (incident v). h \<in> ?V \<union> set (rest @ ?heads)"
      using closure_step [OF lk qA] cl Cons by simp
    have FE1: "?F \<subseteq> edges_of incident A"
      using FE edges_of_head [OF qA, of _ incident ?V] by auto
    have FS1: "\<forall>e \<in> ?F. e \<subseteq> ?V \<union> set (rest @ ?heads)"
      unfolding same using FS Cons by auto
    have "card ?F = card F + card ?N"
      using finF FS by (intro card_new_edges [where S = ?S]) (use qN in auto)
    moreover have "card (?S \<union> ?N) = card ?S + card ?N"
      using finS by (intro card_Un_disjoint) auto
    ultimately have cF1: "card ?F + 1 = card (?V \<union> set (rest @ ?heads))"
      unfolding same using cF by simp
    have xF1: "x \<notin> ?F" using xF xS by auto
    have xS1: "x \<subseteq> ?V \<union> set (rest @ ?heads)" unfolding same using xS by auto
    from "1.IH" [OF Cons nn v refl lk rc cnt f1 q1 v1 s1 c1 FE1 FS1 cF1 xE xF1 xS1]
    show ?thesis using step Cons by simp
  qed
qed

text \<open>
  Where every spanning edge is a direct connection and the spanning edges are fewer than
  the active qubits, every qubit is pushed once, and every push is one entry of the ladder.
\<close>

lemma bfs_exact:
  "linked n incident arch A \<Longrightarrow> reaches incident start A \<Longrightarrow>
   card (edges_of incident A) < card A \<Longrightarrow> direct incident arch A \<Longrightarrow>
   finite visited \<Longrightarrow> set queue \<subseteq> A \<Longrightarrow> visited \<subseteq> A \<Longrightarrow> start \<in> visited \<union> set queue \<Longrightarrow>
   \<forall>v \<in> visited. \<forall>(t, h) \<in> set (incident v). h \<in> visited \<union> set queue \<Longrightarrow>
   distinct queue \<Longrightarrow> set queue \<inter> visited = {} \<Longrightarrow>
   F \<subseteq> edges_of incident A \<Longrightarrow> \<forall>e \<in> F. e \<subseteq> visited \<union> set queue \<and> e \<inter> visited \<noteq> {} \<Longrightarrow>
   card F + 1 = card (visited \<union> set queue) \<Longrightarrow>
   bfs n incident arch queue visited ladder = Inr res \<Longrightarrow>
     length res + card (visited \<union> set queue) = length ladder + card A"
proof (induction n incident arch queue visited ladder arbitrary: F rule: bfs.induct)
  case (1 n incident arch queue visited ladder)
  note lk = "1.prems"(1) and rc = "1.prems"(2) and cnt = "1.prems"(3) and dr = "1.prems"(4)
    and fin = "1.prems"(5) and qs = "1.prems"(6) and vs = "1.prems"(7) and st = "1.prems"(8)
    and cl = "1.prems"(9) and dq = "1.prems"(10) and qv = "1.prems"(11)
    and FE = "1.prems"(12) and FS = "1.prems"(13) and cF = "1.prems"(14) and run = "1.prems"(15)
  from lk have An: "A \<subseteq> {..<n}" by (simp add: linked_def)
  then have finA: "finite A" by (rule finite_subset) simp
  have finE: "finite (edges_of incident A)" using finA by (rule finite_edges_of)
  have finF: "finite F" using FE finE by (rule finite_subset)
  show ?case
  proof (cases queue)
    case Nil
    have "closed_under incident visited" using cl Nil by (simp add: closed_under_def)
    with rc st Nil have "A \<subseteq> visited" by (simp add: reaches_def)
    with vs have "visited = A" by auto
    moreover from run Nil have "res = ladder" by (subst (asm) bfs.simps) simp
    ultimately show ?thesis using Nil by simp
  next
    case (Cons q rest)
    with qs have qA: "q \<in> A" by simp
    from Cons dq qv have qv': "q \<notin> visited" and qr: "q \<notin> set rest" and dr': "distinct rest"
      by auto
    let ?V = "insert q visited"
    let ?heads = "unvisited_heads (incident q) ?V"
    let ?S = "visited \<union> set queue"
    let ?F = "F \<union> (\<lambda>h. {q, h}) ` set ?heads"
    from bfs_step [OF lk qA, of visited rest ladder] dr obtain segment where
      v: "visit_edges arch (incident q) ?V = Inr (segment, ?heads)" and
      step: "bfs n incident arch (q # rest) visited ladder
         = bfs n incident arch (rest @ ?heads) ?V (ladder @ segment)" and
      ls: "length segment = length ?heads" by blast
    note hd = linked_heads [OF lk qA, of ?V]
    from qA An have nn: "\<not> \<not> q < n" by auto
    have apart: "set ?heads \<inter> set rest = {}"
    proof (rule ccontr)
      assume "set ?heads \<inter> set rest \<noteq> {}"
      then obtain h where h: "h \<in> set ?heads" "h \<in> set rest" by auto
      have xE: "{q, h} \<in> edges_of incident A" using qA h(1) by (rule edges_of_head)
      have "h \<notin> visited" using hd(4) h(1) by auto
      with qv' have "{q, h} \<inter> visited = {}" by simp
      with FS have xF: "{q, h} \<notin> F" by blast
      have xS: "{q, h} \<subseteq> ?S" using Cons h(2) by simp
      have FS': "\<forall>e \<in> F. e \<subseteq> ?S" using FS by blast
      from bfs_surplus [OF lk rc cnt fin qs vs st cl FE FS' cF xE xF xS] run
      show False by blast
    qed
    have new: "set ?heads \<inter> ?S = {}" using apart hd(3,4) Cons by auto
    have same: "?V \<union> set (rest @ ?heads) = ?S \<union> set ?heads" using Cons by auto
    have finS: "finite ?S" using fin by simp
    have f1: "finite ?V" using fin by simp
    have q1: "set (rest @ ?heads) \<subseteq> A" using qs Cons hd(1) by auto
    have v1: "?V \<subseteq> A" using vs qA by simp
    have s1: "start \<in> ?V \<union> set (rest @ ?heads)" using st same by auto
    have c1: "\<forall>v \<in> ?V. \<forall>(t, h) \<in> set (incident v). h \<in> ?V \<union> set (rest @ ?heads)"
      using closure_step [OF lk qA] cl Cons by simp
    have d1: "distinct (rest @ ?heads)" using dr' hd(2) apart by auto
    have qv1: "set (rest @ ?heads) \<inter> ?V = {}" using qr qv Cons hd(4) by auto
    have FE1: "?F \<subseteq> edges_of incident A"
      using FE edges_of_head [OF qA, of _ incident ?V] by auto
    have FS1: "\<forall>e \<in> ?F. e \<subseteq> ?V \<union> set (rest @ ?heads) \<and> e \<inter> ?V \<noteq> {}"
      unfolding same using FS Cons by auto
    have cH: "card (set ?heads) = length ?heads" using hd(2) by (rule distinct_card)
    have "card ?F = card F + card (set ?heads)"
      using finF new hd(3) FS by (intro card_new_edges [where S = ?S]) auto
    moreover have cS: "card (?S \<union> set ?heads) = card ?S + card (set ?heads)"
      using finS new by (intro card_Un_disjoint) auto
    ultimately have cF1: "card ?F + 1 = card (?V \<union> set (rest @ ?heads))"
      unfolding same using cF by simp
    from run step Cons
    have run1: "bfs n incident arch (rest @ ?heads) ?V (ladder @ segment) = Inr res" by simp
    from "1.IH" [OF Cons nn v refl lk rc cnt dr f1 q1 v1 s1 c1 d1 qv1 FE1 FS1 cF1 run1]
    have "length res + card (?S \<union> set ?heads) = length (ladder @ segment) + card A"
      unfolding same .
    with cS cH ls show ?thesis by simp
  qed
qed

subsection \<open>The length of the ladder\<close>

definition active :: "int list \<Rightarrow> nat set" where
  "active column = {i. i < length column \<and> column ! i \<noteq> 0}"

definition joined :: "(nat \<times> nat) list \<Rightarrow> (nat \<times> nat) set" where
  "joined mst_branches = {(u, v). (u, v) \<in> set mst_branches \<or> (v, u) \<in> set mst_branches}"

text \<open>
  What is assumed of the edges that \<open>nx.minimum_spanning_edges\<close> returns: each joins two
  different active qubits, and together they connect all active qubits.
\<close>

definition spans :: "(nat \<times> nat) list \<Rightarrow> nat set \<Rightarrow> bool" where
  "spans mst_branches A \<longleftrightarrow>
     (\<forall>(u, v) \<in> set mst_branches. u \<in> A \<and> v \<in> A \<and> u \<noteq> v) \<and>
     (\<forall>a \<in> A. \<forall>b \<in> A. (a, b) \<in> (joined mst_branches)\<^sup>*)"

text \<open>What is assumed of the topology: a path between two ends of an edge has both ends.\<close>

definition routed :: "Topology \<Rightarrow> (nat \<times> nat) list \<Rightarrow> bool" where
  "routed arch mst_branches \<longleftrightarrow>
     (\<forall>(u, v) \<in> set mst_branches.
        2 \<le> length (shortest_path arch u v) \<and> 2 \<le> length (shortest_path arch v u))"

lemma card_active: "card (active column) = length (filter (\<lambda>v. v \<noteq> 0) column)"
  by (simp add: active_def length_filter_conv_card)

lemma argmax_loop_value:
  "pos < i \<Longrightarrow> argmax_loop best pos i xs = r \<Longrightarrow>
     (r = pos \<and> (\<forall>x \<in> set xs. x \<le> best)) \<or>
     (i \<le> r \<and> r < i + length xs \<and> best < xs ! (r - i) \<and> (\<forall>x \<in> set xs. x \<le> xs ! (r - i)))"
proof (induction xs arbitrary: best pos i)
  case Nil
  then show ?case by simp
next
  case (Cons x xs)
  show ?case
  proof (cases "best < x")
    case True
    with Cons.prems have r: "argmax_loop x i (Suc i) xs = r" by simp
    from Cons.IH [OF _ r] have
      "(r = i \<and> (\<forall>y \<in> set xs. y \<le> x)) \<or>
       (Suc i \<le> r \<and> r < Suc i + length xs \<and> x < xs ! (r - Suc i)
          \<and> (\<forall>y \<in> set xs. y \<le> xs ! (r - Suc i)))" by simp
    then show ?thesis
    proof
      assume "r = i \<and> (\<forall>y \<in> set xs. y \<le> x)"
      with True show ?thesis by auto
    next
      assume a: "Suc i \<le> r \<and> r < Suc i + length xs \<and> x < xs ! (r - Suc i)
          \<and> (\<forall>y \<in> set xs. y \<le> xs ! (r - Suc i))"
      then have "(x # xs) ! (r - i) = xs ! (r - Suc i)" by (simp add: nth_Cons')
      with a True show ?thesis by auto
    qed
  next
    case False
    with Cons.prems have r: "argmax_loop best pos (Suc i) xs = r" by simp
    from Cons.prems(1) have "pos < Suc i" by simp
    from Cons.IH [OF this r] have
      "(r = pos \<and> (\<forall>y \<in> set xs. y \<le> best)) \<or>
       (Suc i \<le> r \<and> r < Suc i + length xs \<and> best < xs ! (r - Suc i)
          \<and> (\<forall>y \<in> set xs. y \<le> xs ! (r - Suc i)))" .
    then show ?thesis
    proof
      assume "r = pos \<and> (\<forall>y \<in> set xs. y \<le> best)"
      with False show ?thesis by auto
    next
      assume a: "Suc i \<le> r \<and> r < Suc i + length xs \<and> best < xs ! (r - Suc i)
          \<and> (\<forall>y \<in> set xs. y \<le> xs ! (r - Suc i))"
      then have "(x # xs) ! (r - i) = xs ! (r - Suc i)" by (simp add: nth_Cons')
      with a False show ?thesis by auto
    qed
  qed
qed

lemma argmax_greatest:
  assumes "column \<noteq> []"
  shows "\<exists>q. argmax column = Inr q \<and> q < length column \<and> (\<forall>x \<in> set column. x \<le> column ! q)"
proof -
  from assms obtain x xs where c: "column = x # xs" by (cases column) auto
  define r where "r = argmax_loop x 0 1 xs"
  from argmax_loop_value [of 0 1 x xs r] r_def have
    "(r = 0 \<and> (\<forall>y \<in> set xs. y \<le> x)) \<or>
     (1 \<le> r \<and> r < 1 + length xs \<and> x < xs ! (r - 1) \<and> (\<forall>y \<in> set xs. y \<le> xs ! (r - 1)))"
    by simp
  then have "r < length column \<and> (\<forall>y \<in> set column. y \<le> column ! r)"
    unfolding c by (auto simp: nth_Cons')
  moreover have "argmax column = Inr r" by (simp add: argmax_def c r_def)
  ultimately show ?thesis by blast
qed

lemma argmax_active:
  assumes "list_all (\<lambda>v. v = 0 \<or> v = 1) column" "active column \<noteq> {}"
  shows "\<exists>q. argmax column = Inr q \<and> q \<in> active column"
proof -
  from assms(2) obtain i where i: "i < length column" "column ! i \<noteq> 0"
    by (auto simp: active_def)
  then have ne: "column \<noteq> []" by auto
  from argmax_greatest [OF ne] obtain q where
    q: "argmax column = Inr q" "q < length column" "\<forall>x \<in> set column. x \<le> column ! q" by blast
  from assms(1) i have "column ! i = 1" by (auto simp: list_all_length)
  with q(3) i(1) have "1 \<le> column ! q" by (metis nth_mem)
  with q show ?thesis by (auto simp: active_def)
qed

lemma closed_reach:
  "(a, b) \<in> (joined mst_branches)\<^sup>* \<Longrightarrow> a \<in> V \<Longrightarrow>
   \<forall>q. set (incident q) = {(q, h) | h. (q, h) \<in> set mst_branches \<or> (h, q) \<in> set mst_branches} \<Longrightarrow>
   closed_under incident V \<Longrightarrow> b \<in> V"
proof (induction rule: rtrancl_induct)
  case base
  then show ?case by simp
next
  case (step y z)
  from step have y: "y \<in> V" by simp
  from step.hyps(2) step.prems(2) have "(y, z) \<in> set (incident y)"
    by (auto simp: joined_def)
  with y step.prems(3) show ?case by (auto simp: closed_under_def)
qed

lemma incident_of_spanning:
  assumes sp: "spans mst_branches A" and An: "A \<subseteq> {..<n}" and rt: "routed arch mst_branches"
  shows "\<exists>incident. build_incident n mst_branches (\<lambda>q. []) = Inr incident \<and>
     (\<forall>q. set (incident q) = {(q, h) | h. (q, h) \<in> set mst_branches \<or> (h, q) \<in> set mst_branches}) \<and>
     linked n incident arch A \<and>
     edges_of incident A \<subseteq> (\<lambda>(u, v). {u, v}) ` set mst_branches"
proof -
  from sp have ends: "\<And>u v. (u, v) \<in> set mst_branches \<Longrightarrow> u \<in> A \<and> v \<in> A \<and> u \<noteq> v"
    unfolding spans_def by fast
  with An have "\<forall>(u, v) \<in> set mst_branches. u < n \<and> v < n" by fast
  from build_incident_total [OF this] obtain incident where
    b: "build_incident n mst_branches (\<lambda>q. []) = Inr incident" by blast
  from build_incident_Inr [OF b] have
    s: "\<And>q. set (incident q) = {(q, h) | h. (q, h) \<in> set mst_branches \<or> (h, q) \<in> set mst_branches}"
    and d: "\<And>q. distinct (incident q)" by simp_all
  from rt have paths: "\<And>u v. (u, v) \<in> set mst_branches \<Longrightarrow>
      2 \<le> length (shortest_path arch u v) \<and> 2 \<le> length (shortest_path arch v u)"
    unfolding routed_def by fast
  have entry: "t = q \<and> h \<in> A \<and> h \<noteq> q \<and> 2 \<le> length (shortest_path arch h t)"
    if "(t, h) \<in> set (incident q)" for q t h
  proof -
    from that s have t: "t = q" and "(q, h) \<in> set mst_branches \<or> (h, q) \<in> set mst_branches"
      by auto
    then show ?thesis using ends paths by auto
  qed
  have "inj_on snd (set (incident q))" for q
    using entry [of _ _ q] by (auto simp: inj_on_def)
  with d have dm: "distinct (map snd (incident q))" for q by (simp add: distinct_map)
  have lk: "linked n incident arch A"
    unfolding linked_def using An dm entry by fast
  have "edges_of incident A \<subseteq> (\<lambda>(u, v). {u, v}) ` set mst_branches"
  proof
    fix e assume "e \<in> edges_of incident A"
    then obtain q t h where "(t, h) \<in> set (incident q)" and e: "e = {q, h}"
      by (auto simp: edges_of_def)
    with s have "(q, h) \<in> set mst_branches \<or> (h, q) \<in> set mst_branches" by auto
    then show "e \<in> (\<lambda>(u, v). {u, v}) ` set mst_branches"
    proof
      assume "(q, h) \<in> set mst_branches"
      then show ?thesis unfolding e by (rule rev_image_eqI) simp
    next
      assume "(h, q) \<in> set mst_branches"
      then show ?thesis unfolding e by (rule rev_image_eqI) auto
    qed
  qed
  with b s lk show ?thesis by blast
qed

text \<open>
  C3, amended. For a binary vector with \<open>k \<ge> 1\<close> active qubits and the default root,
  where the spanning edges join different active qubits and connect them all and the
  topology has a path between the two ends of each of them, the function returns, the
  root is active and the ladder has at least \<open>k - 1\<close> entries. When moreover the topology
  is complete (the shortest path between two different qubits is the pair itself) and
  the spanning edges are \<open>k - 1\<close>, a tree, the ladder has exactly \<open>k - 1\<close> entries, one for
  each edge; \<open>two_qubit_count\<close> doubles this number.
\<close>

theorem ladder_length:
  "list_all (\<lambda>v. v = 0 \<or> v = 1) column \<Longrightarrow> active column \<noteq> {} \<Longrightarrow>
   mst_branches = minimum_spanning_edges (length column) (graph_edges column arch) \<Longrightarrow>
   spans mst_branches (active column) \<Longrightarrow> routed arch mst_branches \<Longrightarrow>
     (\<exists>cnot_ladder q.
        find_minimal_cx_assignment minimum_spanning_edges column arch None = Inr (cnot_ladder, q) \<and>
        q \<in> active column \<and>
        card (active column) - 1 \<le> length cnot_ladder \<and>
        (length mst_branches = card (active column) - 1 \<and>
         (\<forall>u v. u \<noteq> v \<longrightarrow> shortest_path arch u v = [u, v]) \<longrightarrow>
           length cnot_ladder = card (active column) - 1))"
proof -
  assume bin: "list_all (\<lambda>v. v = 0 \<or> v = 1) column" and ne: "active column \<noteq> {}"
    and T: "mst_branches = minimum_spanning_edges (length column) (graph_edges column arch)"
    and sp: "spans mst_branches (active column)" and rt: "routed arch mst_branches"
  let ?A = "active column" and ?n = "length column"
  have An: "?A \<subseteq> {..<?n}" by (auto simp: active_def)
  then have finA: "finite ?A" by (rule finite_subset) simp
  with ne have cA: "1 \<le> card ?A" by (simp add: Suc_le_eq card_gt_0_iff)
  from incident_of_spanning [OF sp An rt] obtain incident where
    b: "build_incident ?n mst_branches (\<lambda>q. []) = Inr incident" and
    s: "\<forall>q. set (incident q)
          = {(q, h) | h. (q, h) \<in> set mst_branches \<or> (h, q) \<in> set mst_branches}" and
    lk: "linked ?n incident arch ?A" and
    ed: "edges_of incident ?A \<subseteq> (\<lambda>(u, v). {u, v}) ` set mst_branches" by blast
  from argmax_active [OF bin ne] obtain start where
    am: "argmax column = Inr start" and stA: "start \<in> ?A" by blast
  have rc: "reaches incident start ?A"
    unfolding reaches_def
  proof (intro allI impI subsetI)
    fix V a assume V: "start \<in> V \<and> closed_under incident V" and a: "a \<in> ?A"
    from sp have "\<forall>a \<in> ?A. \<forall>b \<in> ?A. (a, b) \<in> (joined mst_branches)\<^sup>*"
      by (simp add: spans_def)
    with stA a have r: "(start, a) \<in> (joined mst_branches)\<^sup>*" by simp
    from V have V1: "start \<in> V" and V2: "closed_under incident V" by simp_all
    from closed_reach [OF r V1 s V2] show "a \<in> V" .
  qed
  have i1: "finite ({} :: nat set)" and i2: "set [start] \<subseteq> ?A" and i3: "{} \<subseteq> ?A"
    and i4: "\<forall>v \<in> {}. \<forall>(t, h) \<in> set (incident v). h \<in> {} \<union> set [start]"
    and i5: "card ({} \<union> set [start]) \<le> length ([] :: (nat \<times> nat) list) + 1"
    using stA by simp_all
  from bfs_lower [OF lk i1 i2 i3 i4 i5] obtain res V where
    run: "bfs ?n incident arch [start] {} [] = Inr res" and
    V0: "closed_under incident V" "{} \<union> set [start] \<subseteq> V" "finite V"
      "card V \<le> length res + 1"
    by blast
  from V0 have V: "closed_under incident V" "start \<in> V" "finite V" "card V \<le> length res + 1"
    by simp_all
  from rc V(1,2) have "?A \<subseteq> V" by (simp add: reaches_def)
  with V(3) have "card ?A \<le> card V" by (rule card_mono)
  with V(4) have lower: "card ?A - 1 \<le> length res" by simp
  have f: "find_minimal_cx_assignment minimum_spanning_edges column arch None = Inr (res, start)"
    using bin b am run T by (simp add: find_minimal_cx_assignment_def Let_def)
  have exact: "length res = card ?A - 1"
    if "length mst_branches = card ?A - 1 \<and> (\<forall>u v. u \<noteq> v \<longrightarrow> shortest_path arch u v = [u, v])"
  proof -
    from that have len: "length mst_branches = card ?A - 1"
      and cp: "\<And>u v. u \<noteq> v \<Longrightarrow> shortest_path arch u v = [u, v]" by simp_all
    have "card (edges_of incident ?A) \<le> card ((\<lambda>(u, v). {u, v}) ` set mst_branches)"
      using ed by (intro card_mono) simp_all
    also have "\<dots> \<le> card (set mst_branches)" by (rule card_image_le) simp
    also have "\<dots> \<le> length mst_branches" by (rule card_length)
    finally have cnt: "card (edges_of incident ?A) < card ?A" using len cA by simp
    have dr: "direct incident arch ?A"
      unfolding direct_def
    proof (intro ballI)
      fix q e assume q: "q \<in> ?A" and e: "e \<in> set (incident q)"
      obtain t h where th: "e = (t, h)" by (cases e)
      with e s have "t = q" by auto
      moreover from linked_entry(2) [OF lk q] e th have "h \<noteq> q" by blast
      ultimately have "length (shortest_path arch h t) = 2" using cp [of h t] by simp
      with th show "case e of (t, h) \<Rightarrow> length (shortest_path arch h t) = 2" by simp
    qed
    have j1: "start \<in> {} \<union> set [start]" and j2: "distinct [start]"
      and j3: "set [start] \<inter> {} = {}" and j4: "{} \<subseteq> edges_of incident ?A"
      and j5: "\<forall>e \<in> {}. e \<subseteq> {} \<union> set [start] \<and> e \<inter> {} \<noteq> {}"
      and j6: "card ({} :: nat set set) + 1 = card ({} \<union> set [start])" by simp_all
    from bfs_exact [OF lk rc cnt dr i1 i2 i3 j1 i4 j2 j3 j4 j5 j6 run]
    have "length res + card ({} \<union> set [start]) = length ([] :: (nat \<times> nat) list) + card ?A" .
    then show ?thesis by simp
  qed
  from f stA lower exact show ?thesis by blast
qed

text \<open>
  A spanning routine for the examples: on the complete graph over the active qubits with
  equal weights, the first \<open>k - 1\<close> edges in the order of \<open>graph_edges\<close> are the edges
  from the first active qubit to the others, a minimum spanning tree.
\<close>

definition first_edges :: "nat \<Rightarrow> spanning" where
  "first_edges k n edges = take (k - 1) (map (\<lambda>(i, j, w). (i, j)) edges)"

lemma graph_edges_two: "graph_edges [1, 1] (complete 2) = [(0, 1, 2)]"
  by (simp add: graph_edges_def complete_def upt_rec)

lemma graph_edges_three:
  "graph_edges [1, 1, 1] (complete 3) = [(0, 1, 2), (0, 2, 2), (1, 2, 2)]"
  by (simp add: graph_edges_def complete_def upt_rec)

lemma run_two:
  "find_minimal_cx_assignment (first_edges 2) [1, 1] (complete 2) None = Inr ([(1, 0)], 0)"
proof -
  have t: "first_edges 2 (length [1, 1 :: int]) (graph_edges [1, 1] (complete 2)) = [(0, 1)]"
    by (simp add: graph_edges_two first_edges_def)
  have b: "build_incident (length [1, 1 :: int]) [(0, 1)] (\<lambda>q. [])
      = Inr ((\<lambda>q. [])(0 := [(0, 1)], 1 := [(1, 0)]))"
    by (simp add: set_add_def)
  have a: "argmax [1, 1] = Inr 0" by (simp add: argmax_def)
  have r: "bfs (length [1, 1 :: int]) ((\<lambda>q. [])(0 := [(0, 1)], 1 := [(1, 0)])) (complete 2) [0] {} []
      = Inr [(1, 0)]"
    by (simp add: bfs.simps decompose_cnot_ladder_z_def complete_def)
  show ?thesis
    unfolding find_minimal_cx_assignment_def Let_def t b using a r by simp
qed

lemma run_three:
  "find_minimal_cx_assignment (first_edges 3) [1, 1, 1] (complete 3) None
     = Inr ([(1, 0), (2, 0)], 0)"
proof -
  have t: "first_edges 3 (length [1, 1, 1 :: int]) (graph_edges [1, 1, 1] (complete 3))
      = [(0, 1), (0, 2)]"
    by (simp add: graph_edges_three first_edges_def)
  have b: "build_incident (length [1, 1, 1 :: int]) [(0, 1), (0, 2)] (\<lambda>q. [])
      = Inr ((\<lambda>q. [])(0 := [(0, 1), (0, 2)], 1 := [(1, 0)], 2 := [(2, 0)]))"
    by (simp add: set_add_def fun_upd_twist)
  have a: "argmax [1, 1, 1] = Inr 0" by (simp add: argmax_def)
  have r: "bfs (length [1, 1, 1 :: int])
        ((\<lambda>q. [])(0 := [(0, 1), (0, 2)], 1 := [(1, 0)], 2 := [(2, 0)])) (complete 3) [0] {} []
      = Inr [(1, 0), (2, 0)]"
    by (simp add: bfs.simps decompose_cnot_ladder_z_def complete_def)
  show ?thesis
    unfolding find_minimal_cx_assignment_def Let_def t b using a r by simp
qed

lemma active_three: "active [1, 1, 1] = {0, 1, 2}"
  by (auto simp: active_def nth_Cons' less_Suc_eq eval_nat_numeral)

text \<open>
  C3, as the spec states it: on a complete topology the ladder has \<open>2 * (k - 1)\<close> entries.
  With two active qubits on the complete topology of two qubits the ladder is the single
  pair \<open>(1, 0)\<close>: one entry, where \<open>2 * (k - 1) = 2\<close>.
\<close>

theorem complete_topology_ladder_not_doubled:
  "find_minimal_cx_assignment (first_edges 2) [1, 1] (complete 2) None = Inr ([(1, 0)], 0) \<and>
   length (filter (\<lambda>v. v \<noteq> 0) [1, 1 :: int]) = 2 \<and>
   length [(1, 0) :: nat \<times> nat] \<noteq> 2 * (2 - 1)"
  using run_two by simp

theorem ladder_length_witness:
  "list_all (\<lambda>v. v = 0 \<or> v = 1) [1, 1, 1 :: int] \<and>
   first_edges 3 (length [1, 1, 1 :: int]) (graph_edges [1, 1, 1] (complete 3)) = [(0, 1), (0, 2)] \<and>
   spans [(0, 1), (0, 2)] (active [1, 1, 1]) \<and>
   routed (complete 3) [(0, 1), (0, 2)] \<and>
   find_minimal_cx_assignment (first_edges 3) [1, 1, 1] (complete 3) None
     = Inr ([(1, 0), (2, 0)], 0) \<and>
   0 \<in> active [1, 1, 1] \<and>
   length [(1, 0), (2, 0) :: nat \<times> nat] = card (active [1, 1, 1]) - 1"
proof -
  let ?T = "[(0, 1), (0, 2)] :: (nat \<times> nat) list"
  let ?R = "joined ?T"
  have bin: "list_all (\<lambda>v. v = 0 \<or> v = 1) [1, 1, 1 :: int]" by simp
  have ne: "active [1, 1, 1] \<noteq> {}" by (simp add: active_three)
  have T: "?T = first_edges 3 (length [1, 1, 1 :: int]) (graph_edges [1, 1, 1] (complete 3))"
    by (simp add: graph_edges_three first_edges_def)
  have e: "(0, 1) \<in> ?R" "(1, 0) \<in> ?R" "(0, 2) \<in> ?R" "(2, 0) \<in> ?R"
    by (simp_all add: joined_def)
  have to0: "(a, 0) \<in> ?R\<^sup>*" and from0: "(0, a) \<in> ?R\<^sup>*" if "a \<in> {0, 1, 2}" for a :: nat
    using that e by auto
  have "(a, b) \<in> ?R\<^sup>*" if "a \<in> {0, 1, 2}" "b \<in> {0, 1, 2}" for a b :: nat
    using to0 [OF that(1)] from0 [OF that(2)] by (rule rtrancl_trans)
  then have sp: "spans ?T (active [1, 1, 1])"
    by (simp add: spans_def active_three)
  have rt: "routed (complete 3) ?T" by (simp add: routed_def complete_def)
  from ladder_length [where minimum_spanning_edges = "first_edges 3" and arch = "complete 3",
      OF bin ne T sp rt] obtain cnot_ladder q where
    f: "find_minimal_cx_assignment (first_edges 3) [1, 1, 1] (complete 3) None
        = Inr (cnot_ladder, q)" and
    q: "q \<in> active [1, 1, 1]" and
    ex: "length ?T = card (active [1, 1, 1]) - 1 \<and>
         (\<forall>u v. u \<noteq> v \<longrightarrow> shortest_path (complete 3) u v = [u, v]) \<longrightarrow>
           length cnot_ladder = card (active [1, 1, 1]) - 1"
    by blast
  from f run_three have l: "cnot_ladder = [(1, 0), (2, 0)]" and q0: "q = 0" by simp_all
  have "length ?T = card (active [1, 1, 1]) - 1" by (simp add: active_three)
  moreover have "\<forall>u v. u \<noteq> v \<longrightarrow> shortest_path (complete 3) u v = [u, v]"
    by (simp add: complete_def)
  ultimately have "length cnot_ladder = card (active [1, 1, 1]) - 1" using ex by blast
  with l q q0 bin T [symmetric] sp rt run_three show ?thesis by simp
qed

section \<open>Steiner-Gray synthesis\<close>

text \<open>
  The gates \<open>H(q)\<close>, \<open>V(q)\<close> and \<open>CX(q1, q2)\<close> of \<open>pauliopt.pauli.clifford_gates\<close>, which
  the synthesis hands to \<open>propagate\<close>.
\<close>

datatype CliffordGate = H nat | V nat | CX nat nat

text \<open>
  Modelled from the spec: the circuit sink \<open>PauliCircuit\<close> of
  \<open>pauliopt.pauli.pauli_circuit\<close>, which is not among the sources. It is an append-only
  sequence of gates (\<open>h\<close>, \<open>v\<close>, \<open>vdg\<close>, \<open>cx\<close>, \<open>rz\<close>) with concatenation and an inverse,
  the reversed sequence of the inverse gates.
\<close>

datatype Instruction =
  h_gate nat | v_gate nat | vdg_gate nat | cx_gate nat nat | rz_gate real nat

type_synonym PauliCircuit = "Instruction list"

fun inverse_instruction :: "Instruction \<Rightarrow> Instruction" where
  "inverse_instruction (h_gate q) = h_gate q"
| "inverse_instruction (v_gate q) = vdg_gate q"
| "inverse_instruction (vdg_gate q) = v_gate q"
| "inverse_instruction (cx_gate c t) = cx_gate c t"
| "inverse_instruction (rz_gate a q) = rz_gate (- a) q"

definition inverse_circuit :: "PauliCircuit \<Rightarrow> PauliCircuit" where
  "inverse_circuit qc = map inverse_instruction (rev qc)"

text \<open>
  The functions of other modules that are not among the sources are parameters:
  \<open>find_common_paulis\<close> of \<open>pauliopt.pauli.synth.uccds\<close>, \<open>is_cutting\<close> of
  \<open>pauliopt.pauli.clifford_tableau\<close>, the rule \<open>gate.propagate_pauli\<close> of the Clifford
  gates, and \<open>G.subgraph(nodes).neighbors(row)\<close> of networkx. The graph \<open>topo.to_nx\<close> is the
  list of its edges, in the order in which \<open>G.edges\<close> gives them; a subgraph is given by the
  list of the nodes it keeps.
\<close>

record collaborators =
  find_common_paulis :: "nat \<Rightarrow> PauliPolynomial \<Rightarrow> error + Pauli option"
  is_cutting :: "nat \<Rightarrow> nat list \<Rightarrow> (nat \<times> nat) list \<Rightarrow> bool"
  neighbors :: "nat list \<Rightarrow> (nat \<times> nat) list \<Rightarrow> nat \<Rightarrow> error + nat list"
  propagate_pauli :: "CliffordGate \<Rightarrow> PauliGadget \<Rightarrow> PauliGadget"

subsection \<open>What the polynomial offers to the synthesis\<close>

text \<open>
  \<open>PauliPolynomial.propagate(self, gate)\<close>: a new polynomial of the gadgets that
  \<open>gate.propagate_pauli\<close> returns.
\<close>

definition propagate ::
  "collaborators \<Rightarrow> PauliPolynomial \<Rightarrow> CliffordGate \<Rightarrow> error + PauliPolynomial" where
  "propagate env pp gate =
     irshift_all \<lparr>num_qubits = num_qubits pp, pauli_gadgets = []\<rparr>
       (map (propagate_pauli env gate) (pauli_gadgets pp))"

text \<open>
  The synthesis calls \<open>pp.propagate(gate, columns_to_use)\<close>. The method above takes the
  gate and nothing else, so Python raises \<open>TypeError\<close> at the call, before the body runs.
  The caller drops the value of the call: the polynomial \<open>pp\<close> is the same object with the
  same gadgets before and after, in every function of the synthesis.
\<close>

definition propagate_columns ::
  "PauliPolynomial \<Rightarrow> CliffordGate \<Rightarrow> nat list \<Rightarrow> error + PauliPolynomial" where
  "propagate_columns pp gate columns_to_use = Inl TypeError"

text \<open>
  The synthesis also writes \<open>pp[l]\<close>. The class \<open>PauliPolynomial\<close> defines no
  \<open>__getitem__\<close>, so Python raises \<open>TypeError\<close>.
\<close>

definition subscript :: "PauliPolynomial \<Rightarrow> nat \<Rightarrow> error + PauliGadget" where
  "subscript pp l = Inl TypeError"

text \<open>\<open>PauliGadget.__getitem__\<close> and the access \<open>pp.pauli_gadgets[col][q]\<close>.\<close>

definition gadget_item :: "PauliGadget \<Rightarrow> nat \<Rightarrow> error + Pauli" where
  "gadget_item gadget item =
     (if item < length (paulis gadget) then Inr (paulis gadget ! item) else Inl IndexError)"

definition pauli_at :: "PauliPolynomial \<Rightarrow> nat \<Rightarrow> nat \<Rightarrow> error + Pauli" where
  "pauli_at pp col q =
     (if col < length (pauli_gadgets pp) then gadget_item (pauli_gadgets pp ! col) q
      else Inl IndexError)"

fun collect :: "('a \<Rightarrow> error + 'b) \<Rightarrow> 'a list \<Rightarrow> error + 'b list" where
  "collect f [] = Inr []"
| "collect f (x # xs) =
     (case f x of
        Inl e \<Rightarrow> Inl e
      | Inr y \<Rightarrow> (case collect f xs of Inl e \<Rightarrow> Inl e | Inr ys \<Rightarrow> Inr (y # ys)))"

subsection \<open>Choosing a row\<close>

definition score :: "Pauli list \<Rightarrow> int" where
  "score ps =
     (let i_score = int (length (filter (\<lambda>p. p = I) ps));
          x_score = int (length (filter (\<lambda>p. p = X) ps));
          y_score = int (length (filter (\<lambda>p. p = Y) ps));
          z_score = int (length (filter (\<lambda>p. p = Z) ps))
      in max (max (max i_score x_score) y_score) z_score
           - min (min (min i_score x_score) y_score) z_score)"

fun first_max :: "nat \<times> int \<Rightarrow> (nat \<times> int) list \<Rightarrow> nat \<times> int" where
  "first_max best [] = best"
| "first_max best (s # ss) = (if snd best < snd s then first_max s ss else first_max best ss)"

definition pick_row :: "PauliPolynomial \<Rightarrow> nat list \<Rightarrow> nat list \<Rightarrow> error + nat" where
  "pick_row pp columns_to_use qubits_to_use =
     (case collect (\<lambda>q. case collect (\<lambda>col. pauli_at pp col q) columns_to_use of
                           Inl e \<Rightarrow> Inl e
                         | Inr ps \<Rightarrow> Inr (q, score ps)) qubits_to_use of
        Inl e \<Rightarrow> Inl e
      | Inr [] \<Rightarrow> Inl ValueError
      | Inr (s # qubit_scores) \<Rightarrow> Inr (fst (first_max s qubit_scores)))"

subsection \<open>The diagonalising gates\<close>

definition update_gadget_single_column ::
  "PauliPolynomial \<Rightarrow> PauliCircuit \<Rightarrow> nat \<Rightarrow> Pauli \<Rightarrow> nat list \<Rightarrow> error + PauliCircuit" where
  "update_gadget_single_column pp qc q p columns_to_use =
     (case p of
        X \<Rightarrow> (case propagate_columns pp (H q) columns_to_use of
                Inl e \<Rightarrow> Inl e | Inr pp1 \<Rightarrow> Inr (qc @ [h_gate q]))
      | Y \<Rightarrow> (case propagate_columns pp (V q) columns_to_use of
                Inl e \<Rightarrow> Inl e | Inr pp1 \<Rightarrow> Inr (qc @ [v_gate q]))
      | Z \<Rightarrow> Inr qc
      | I \<Rightarrow> Inl ValueError)"

text \<open>The flag \<open>change\<close> that \<open>update_single_qubits\<close> returns is dropped by its only caller.\<close>

fun update_single_qubits ::
  "collaborators \<Rightarrow> PauliPolynomial \<Rightarrow> PauliCircuit \<Rightarrow> nat list \<Rightarrow> nat list
     \<Rightarrow> error + PauliCircuit" where
  "update_single_qubits env pp c [] columns_to_use = Inr c"
| "update_single_qubits env pp c (q # qubits) columns_to_use =
     (case find_common_paulis env q pp of
        Inl e \<Rightarrow> Inl e
      | Inr None \<Rightarrow> update_single_qubits env pp c qubits columns_to_use
      | Inr (Some p) \<Rightarrow>
          (case update_gadget_single_column pp c q p columns_to_use of
             Inl e \<Rightarrow> Inl e
           | Inr c1 \<Rightarrow> update_single_qubits env pp c1 qubits columns_to_use))"

fun compatible_on ::
  "PauliPolynomial \<Rightarrow> nat \<Rightarrow> nat \<Rightarrow> Pauli \<Rightarrow> Pauli \<Rightarrow> nat list \<Rightarrow> error + bool" where
  "compatible_on pp q1 q2 p1 p2 [] = Inr True"
| "compatible_on pp q1 q2 p1 p2 (l # columns_to_use) =
     (case subscript pp l of
        Inl e \<Rightarrow> Inl e
      | Inr gadget \<Rightarrow>
          (case gadget_item gadget q1 of
             Inl e \<Rightarrow> Inl e
           | Inr p_gdt \<Rightarrow>
               (case subscript pp l of
                  Inl e \<Rightarrow> Inl e
                | Inr gadget2 \<Rightarrow>
                    (case gadget_item gadget2 q2 of
                       Inl e \<Rightarrow> Inl e
                     | Inr p_gdt2 \<Rightarrow>
                         if (p_gdt = I \<or> p_gdt = p1) \<noteq> (p_gdt2 = I \<or> p_gdt2 = p2) then Inr False
                         else compatible_on pp q1 q2 p1 p2 columns_to_use))))"

fun first_compatible ::
  "PauliPolynomial \<Rightarrow> nat \<Rightarrow> nat \<Rightarrow> nat list \<Rightarrow> (Pauli \<times> Pauli) list
     \<Rightarrow> error + (Pauli \<times> Pauli) option" where
  "first_compatible pp q1 q2 columns_to_use [] = Inr None"
| "first_compatible pp q1 q2 columns_to_use ((p1, p2) # candidates) =
     (case compatible_on pp q1 q2 p1 p2 columns_to_use of
        Inl e \<Rightarrow> Inl e
      | Inr found_pair \<Rightarrow>
          if found_pair then Inr (Some (p1, p2))
          else first_compatible pp q1 q2 columns_to_use candidates)"

definition find_compatible_pair ::
  "PauliPolynomial \<Rightarrow> nat \<Rightarrow> nat \<Rightarrow> nat list \<Rightarrow> error + (Pauli \<times> Pauli) option" where
  "find_compatible_pair pp q1 q2 columns_to_use =
     first_compatible pp q1 q2 columns_to_use
       [(X, X), (X, Y), (X, Z), (Y, X), (Y, Y), (Y, Z), (Z, X), (Z, Y), (Z, Z)]"

fun pick_best_pair ::
  "PauliPolynomial \<Rightarrow> (nat \<times> nat) list \<Rightarrow> nat list \<Rightarrow> nat list
     \<Rightarrow> error + ((Pauli \<times> Pauli) \<times> (nat \<times> nat)) option" where
  "pick_best_pair pp [] columns_to_use qubits = Inr None"
| "pick_best_pair pp ((q_1, q_2) # edges) columns_to_use qubits =
     (if q_1 \<in> set qubits \<and> q_2 \<in> set qubits
      then (case find_compatible_pair pp q_1 q_2 columns_to_use of
              Inl e \<Rightarrow> Inl e
            | Inr None \<Rightarrow> pick_best_pair pp edges columns_to_use qubits
            | Inr (Some pairs) \<Rightarrow> Inr (Some (pairs, (q_1, q_2))))
      else pick_best_pair pp edges columns_to_use qubits)"

lemma length_remove1_le: "length (remove1 x xs) \<le> length xs"
  by (induction xs) auto

lemma length_remove1_less: "x \<in> set xs \<Longrightarrow> length (remove1 x xs) < length xs"
  by (induction xs) auto

text \<open>
  The loop of \<open>update_pair_qubits\<close>: \<open>list.remove\<close> raises \<open>ValueError\<close> for a value that is
  not in the list, and every turn takes two qubits out of \<open>non_visited_qubits\<close>.
\<close>

function update_pair_loop ::
  "PauliPolynomial \<Rightarrow> PauliCircuit \<Rightarrow> (nat \<times> nat) list \<Rightarrow> nat list
     \<Rightarrow> ((Pauli \<times> Pauli) \<times> (nat \<times> nat)) option \<Rightarrow> nat list \<Rightarrow> error + PauliCircuit" where
  "update_pair_loop pp c edges columns_to_use qubit_pairs non_visited_qubits =
     (case qubit_pairs of
        None \<Rightarrow> Inr c
      | Some ((p1, p2), (q_1, q_2)) \<Rightarrow>
          if non_visited_qubits = [] then Inr c
          else if q_1 \<notin> set non_visited_qubits then Inl ValueError
          else if q_2 \<notin> set (remove1 q_1 non_visited_qubits) then Inl ValueError
          else
            (case update_gadget_single_column pp c q_1 p1 columns_to_use of
               Inl e \<Rightarrow> Inl e
             | Inr c1 \<Rightarrow>
                 (case update_gadget_single_column pp c1 q_2 p2 columns_to_use of
                    Inl e \<Rightarrow> Inl e
                  | Inr c2 \<Rightarrow>
                      (case propagate_columns pp (CX q_1 q_2) columns_to_use of
                         Inl e \<Rightarrow> Inl e
                       | Inr pp1 \<Rightarrow>
                           (case pick_best_pair pp edges columns_to_use
                                   (remove1 q_2 (remove1 q_1 non_visited_qubits)) of
                              Inl e \<Rightarrow> Inl e
                            | Inr next_pairs \<Rightarrow>
                                update_pair_loop pp (c2 @ [cx_gate q_1 q_2]) edges columns_to_use
                                  next_pairs (remove1 q_2 (remove1 q_1 non_visited_qubits)))))))"
  by pat_completeness auto
termination
proof (relation "measure (\<lambda>(pp, c, edges, columns_to_use, qubit_pairs, non_visited_qubits).
                            length non_visited_qubits)")
  show "wf (measure (\<lambda>(pp, c, edges, columns_to_use, qubit_pairs, non_visited_qubits).
                            length non_visited_qubits))"
    by simp
next
  fix non_visited_qubits :: "nat list" and q_1 q_2 :: nat
    and pp :: PauliPolynomial and c c2 :: PauliCircuit and edges :: "(nat \<times> nat) list"
    and columns_to_use :: "nat list" and qubit_pairs next_pairs :: "((Pauli \<times> Pauli) \<times> (nat \<times> nat)) option"
  assume "\<not> q_1 \<notin> set non_visited_qubits"
  then have "length (remove1 q_1 non_visited_qubits) < length non_visited_qubits"
    by (simp add: length_remove1_less)
  moreover have "length (remove1 q_2 (remove1 q_1 non_visited_qubits))
      \<le> length (remove1 q_1 non_visited_qubits)"
    by (rule length_remove1_le)
  ultimately show "((pp, c2 @ [cx_gate q_1 q_2], edges, columns_to_use, next_pairs,
          remove1 q_2 (remove1 q_1 non_visited_qubits)),
         pp, c, edges, columns_to_use, qubit_pairs, non_visited_qubits)
        \<in> measure (\<lambda>(pp, c, edges, columns_to_use, qubit_pairs, non_visited_qubits).
                            length non_visited_qubits)"
    by simp
qed

declare update_pair_loop.simps [simp del]

definition update_pair_qubits ::
  "PauliPolynomial \<Rightarrow> PauliCircuit \<Rightarrow> Topology \<Rightarrow> nat list \<Rightarrow> nat list \<Rightarrow> error + PauliCircuit" where
  "update_pair_qubits pp c topology qubits columns_to_use =
     (case pick_best_pair pp (to_nx topology) columns_to_use qubits of
        Inl e \<Rightarrow> Inl e
      | Inr qubit_pairs \<Rightarrow>
          update_pair_loop pp c (to_nx topology) columns_to_use qubit_pairs qubits)"

subsection \<open>Partitions of the columns\<close>

fun partition_pauli_polynomial ::
  "PauliPolynomial \<Rightarrow> nat \<Rightarrow> nat list \<Rightarrow> error + nat list \<times> nat list \<times> nat list \<times> nat list" where
  "partition_pauli_polynomial pp row [] = Inr ([], [], [], [])"
| "partition_pauli_polynomial pp row (col # columns_to_use) =
     (case pauli_at pp col row of
        Inl e \<Rightarrow> Inl e
      | Inr p \<Rightarrow>
          (case partition_pauli_polynomial pp row columns_to_use of
             Inl e \<Rightarrow> Inl e
           | Inr (col_i, col_x, col_y, col_z) \<Rightarrow>
               (case p of
                  I \<Rightarrow> Inr (col # col_i, col_x, col_y, col_z)
                | X \<Rightarrow> Inr (col_i, col # col_x, col_y, col_z)
                | Y \<Rightarrow> Inr (col_i, col_x, col # col_y, col_z)
                | Z \<Rightarrow> Inr (col_i, col_x, col_y, col # col_z))))"

text \<open>
  \<open>partition_pauli_polynomial_\<close> of the source (with the underscore): the two non-identity
  types that have the most columns together, and the third. \<open>max\<close> with a key returns the
  first of the greatest entries.
\<close>

definition partition_pauli_polynomial_2 ::
  "PauliPolynomial \<Rightarrow> nat \<Rightarrow> nat list
     \<Rightarrow> error + nat list \<times> Pauli \<times> Pauli \<times> nat list \<times> Pauli \<times> nat list" where
  "partition_pauli_polynomial_2 pp row columns_to_use =
     (case partition_pauli_polynomial pp row columns_to_use of
        Inl e \<Rightarrow> Inl e
      | Inr (col_i, col_x, col_y, col_z) \<Rightarrow>
          let n_xy = length col_x + length col_y;
              n_xz = length col_x + length col_z;
              n_yz = length col_y + length col_z
          in if n_xz \<le> n_xy \<and> n_yz \<le> n_xy then Inr (col_i, X, Y, col_x @ col_y, Z, col_z)
             else if n_yz \<le> n_xz then Inr (col_i, X, Z, col_x @ col_z, Y, col_y)
             else Inr (col_i, Y, Z, col_y @ col_z, X, col_x))"

subsection \<open>The recursion\<close>

text \<open>
  The nested functions of \<open>pauli_polynomial_steiner_gray_nc\<close> share the list \<open>perm_gadgets\<close>;
  here each of them takes it and returns it with its circuit. They call one another with no
  measure that visibly decreases, so each takes fuel, one unit per call: \<open>None\<close> says that
  the fuel ran out, \<open>Some (Inl e)\<close> that Python raised \<open>e\<close>, \<open>Some (Inr r)\<close> that it returned
  \<open>r\<close>.
\<close>

definition bind_run ::
  "(error + 'a) option \<Rightarrow> ('a \<Rightarrow> (error + 'b) option) \<Rightarrow> (error + 'b) option" where
  "bind_run m f = (case m of None \<Rightarrow> None | Some (Inl e) \<Rightarrow> Some (Inl e) | Some (Inr a) \<Rightarrow> f a)"

definition then_do :: "error + 'a \<Rightarrow> ('a \<Rightarrow> (error + 'b) option) \<Rightarrow> (error + 'b) option" where
  "then_do m f = (case m of Inl e \<Rightarrow> Some (Inl e) | Inr a \<Rightarrow> f a)"

definition apply_rotation ::
  "PauliPolynomial \<Rightarrow> nat list \<Rightarrow> nat list \<Rightarrow> nat \<Rightarrow> Pauli \<Rightarrow> error + PauliCircuit \<times> nat list" where
  "apply_rotation pp perm_gadgets columns_to_use row rec_type =
     (case collect (\<lambda>col. if col < length (pauli_gadgets pp)
                           then Inr (rz_gate (angle (pauli_gadgets pp ! col)) row)
                           else Inl IndexError) columns_to_use of
        Inl e \<Rightarrow> Inl e
      | Inr rotations \<Rightarrow>
          Inr ((if rec_type = X then [h_gate row] else if rec_type = Y then [v_gate row] else [])
                 @ rotations
                 @ (if rec_type = X then [h_gate row] else if rec_type = Y then [vdg_gate row] else []),
               perm_gadgets @ columns_to_use))"

text \<open>
  The block that opens \<open>check_identity\<close>, \<open>simplify_twp_p\<close> and \<open>simplify_one_p\<close>: the gate is
  put into the circuit, then \<open>pp.propagate\<close> is called (for \<open>Y\<close> the circuit gets \<open>vdg\<close> and
  the polynomial is asked to propagate \<open>V\<close>). A call that raises takes the local circuit
  with it. The block that closes these functions only emits.
\<close>

definition change_basis ::
  "PauliPolynomial \<Rightarrow> PauliCircuit \<Rightarrow> Pauli \<Rightarrow> nat \<Rightarrow> nat list \<Rightarrow> error + PauliCircuit" where
  "change_basis pp qc rec_type row columns_to_use =
     (if rec_type = X
      then (case propagate_columns pp (H row) columns_to_use of
              Inl e \<Rightarrow> Inl e | Inr pp1 \<Rightarrow> Inr (qc @ [h_gate row]))
      else if rec_type = Y
      then (case propagate_columns pp (V row) columns_to_use of
              Inl e \<Rightarrow> Inl e | Inr pp1 \<Rightarrow> Inr (qc @ [vdg_gate row]))
      else Inr qc)"

definition restore_basis :: "Pauli \<Rightarrow> nat \<Rightarrow> PauliCircuit" where
  "restore_basis rec_type row =
     (if rec_type = X then [h_gate row] else if rec_type = Y then [v_gate row] else [])"

text \<open>
  \<open>qc.cx(control, target)\<close> followed by \<open>pp.propagate(CX(control, target), columns_to_use)\<close>,
  as \<open>simplify_twp_p\<close> and \<open>simplify_one_p\<close> have it.
\<close>

definition emit_cx ::
  "PauliPolynomial \<Rightarrow> PauliCircuit \<Rightarrow> nat \<Rightarrow> nat \<Rightarrow> nat list \<Rightarrow> error + PauliCircuit" where
  "emit_cx pp qc control target columns_to_use =
     (case propagate_columns pp (CX control target) columns_to_use of
        Inl e \<Rightarrow> Inl e | Inr pp1 \<Rightarrow> Inr (qc @ [cx_gate control target]))"

function (sequential) identity_recurse ::
    "collaborators \<Rightarrow> Topology \<Rightarrow> PauliPolynomial \<Rightarrow> nat \<Rightarrow> nat list \<Rightarrow> nat list \<Rightarrow> nat list
       \<Rightarrow> (error + PauliCircuit \<times> nat list) option"
  and p_recurse ::
    "collaborators \<Rightarrow> Topology \<Rightarrow> PauliPolynomial \<Rightarrow> nat \<Rightarrow> nat list \<Rightarrow> nat list \<Rightarrow> nat \<Rightarrow> Pauli
       \<Rightarrow> nat list \<Rightarrow> (error + PauliCircuit \<times> nat list) option"
  and check_identity ::
    "collaborators \<Rightarrow> Topology \<Rightarrow> PauliPolynomial \<Rightarrow> nat \<Rightarrow> nat list \<Rightarrow> nat list \<Rightarrow> nat \<Rightarrow> nat
       \<Rightarrow> Pauli \<Rightarrow> nat list \<Rightarrow> (error + PauliCircuit \<times> nat list) option"
  and simplify_twp_p ::
    "collaborators \<Rightarrow> Topology \<Rightarrow> PauliPolynomial \<Rightarrow> nat \<Rightarrow> nat list \<Rightarrow> nat list \<Rightarrow> nat \<Rightarrow> Pauli
       \<Rightarrow> nat \<Rightarrow> Pauli \<Rightarrow> Pauli \<Rightarrow> nat list \<Rightarrow> (error + PauliCircuit \<times> nat list) option"
  and simplify_one_p ::
    "collaborators \<Rightarrow> Topology \<Rightarrow> PauliPolynomial \<Rightarrow> nat \<Rightarrow> nat list \<Rightarrow> nat list \<Rightarrow> nat \<Rightarrow> Pauli
       \<Rightarrow> nat \<Rightarrow> Pauli \<Rightarrow> nat list \<Rightarrow> (error + PauliCircuit \<times> nat list) option"
where
  "identity_recurse env topo pp 0 columns_to_use qubits_to_use perm_gadgets = None"
| "identity_recurse env topo pp (Suc fuel) columns_to_use qubits_to_use perm_gadgets =
     (if columns_to_use = [] then Some (Inr ([], perm_gadgets))
      else
        then_do (update_single_qubits env pp [] qubits_to_use columns_to_use) (\<lambda>qc_single.
        then_do (update_pair_qubits pp qc_single topo qubits_to_use columns_to_use) (\<lambda>qc_diag.
        then_do (pick_row pp columns_to_use
                   (filter (\<lambda>q. \<not> is_cutting env q qubits_to_use (to_nx topo)) qubits_to_use))
          (\<lambda>row.
        then_do (partition_pauli_polynomial pp row columns_to_use) (\<lambda>(pp_i, pp_x, pp_y, pp_z).
        bind_run (if filter (\<lambda>q. q \<noteq> row) qubits_to_use \<noteq> []
                  then identity_recurse env topo pp fuel pp_i
                         (filter (\<lambda>q. q \<noteq> row) qubits_to_use) perm_gadgets
                  else Some (apply_rotation pp perm_gadgets pp_i row I)) (\<lambda>(qc_i, perm_i).
        bind_run (p_recurse env topo pp fuel pp_x (filter (\<lambda>q. q \<noteq> row) qubits_to_use) row X
                    perm_i) (\<lambda>(qc_x, perm_x).
        bind_run (p_recurse env topo pp fuel pp_y (filter (\<lambda>q. q \<noteq> row) qubits_to_use) row Y
                    perm_x) (\<lambda>(qc_y, perm_y).
        bind_run (p_recurse env topo pp fuel pp_z (filter (\<lambda>q. q \<noteq> row) qubits_to_use) row Z
                    perm_y) (\<lambda>(qc_z, perm_z).
        Some (Inr (inverse_circuit qc_diag @ qc_i @ qc_x @ qc_y @ qc_z @ qc_diag,
                   perm_z)))))))))))"
| "p_recurse env topo pp 0 columns_to_use qubits_to_use row rec_type perm_gadgets = None"
| "p_recurse env topo pp (Suc fuel) columns_to_use qubits_to_use row rec_type perm_gadgets =
     (if rec_type = I then Some (Inl AssertionError)
      else if columns_to_use = [] then Some (Inr ([], perm_gadgets))
      else if qubits_to_use = []
      then Some (apply_rotation pp perm_gadgets columns_to_use row rec_type)
      else
        then_do (neighbors env (qubits_to_use @ [row]) (to_nx topo) row) (\<lambda>neighbours.
        if neighbours = [] then Some (Inl AssertionError)
        else
        then_do (pick_row pp columns_to_use neighbours) (\<lambda>row_next.
        then_do (partition_pauli_polynomial_2 pp row_next columns_to_use)
          (\<lambda>(pp_i, t_pp2_1, tpp2_2, pp2, t_p1, pp1).
        bind_run (if \<not> is_cutting env row_next (qubits_to_use @ [row]) (to_nx topo)
                  then identity_recurse env topo pp fuel pp_i
                         (filter (\<lambda>q. q \<noteq> row_next) qubits_to_use @ [row]) perm_gadgets
                  else check_identity env topo pp fuel pp_i
                         (filter (\<lambda>q. q \<noteq> row_next) qubits_to_use) row row_next rec_type
                         perm_gadgets) (\<lambda>(qc_i, perm_i).
        bind_run (simplify_twp_p env topo pp fuel pp2 (filter (\<lambda>q. q \<noteq> row_next) qubits_to_use)
                    row rec_type row_next t_pp2_1 tpp2_2 perm_i) (\<lambda>(qc_two, perm_two).
        bind_run (simplify_one_p env topo pp fuel pp1 (filter (\<lambda>q. q \<noteq> row_next) qubits_to_use)
                    row rec_type row_next t_p1 perm_two) (\<lambda>(qc_one, perm_one).
        Some (Inr (inverse_circuit [] @ qc_i @ qc_two @ qc_one @ [], perm_one)))))))))"
| "check_identity env topo pp 0 columns_to_use remaining_qubits row row_next rec_type
     perm_gadgets = None"
| "check_identity env topo pp (Suc fuel) columns_to_use remaining_qubits row row_next rec_type
     perm_gadgets =
     (if length columns_to_use = 0 then Some (Inr ([], perm_gadgets))
      else
        then_do (change_basis pp [] rec_type row columns_to_use) (\<lambda>qc1.
        then_do (propagate_columns pp (CX row_next row) columns_to_use) (\<lambda>dropped1.
        then_do (propagate_columns pp (CX row row_next) columns_to_use) (\<lambda>dropped2.
        bind_run (p_recurse env topo pp fuel columns_to_use remaining_qubits row_next Z
                    perm_gadgets) (\<lambda>(qc_i, perm_i).
        Some (Inr (qc1 @ [cx_gate row_next row, cx_gate row row_next] @ qc_i
                     @ [cx_gate row row_next, cx_gate row_next row] @ restore_basis rec_type row,
                   perm_i)))))))"
| "simplify_twp_p env topo pp 0 columns_to_use remaining_qubits row rec_type row_next
     rec_type_next_1 rec_type_next_2 perm_gadgets = None"
| "simplify_twp_p env topo pp (Suc fuel) columns_to_use remaining_qubits row rec_type row_next
     rec_type_next_1 rec_type_next_2 perm_gadgets =
     (if length columns_to_use = 0 then Some (Inr ([], perm_gadgets))
      else
        then_do (change_basis pp [] rec_type row columns_to_use) (\<lambda>qc1.
        then_do (if rec_type_next_1 = X \<and> rec_type_next_2 = Y
                 then change_basis pp qc1 X row_next columns_to_use
                 else if rec_type_next_1 = X \<and> rec_type_next_2 = Z
                 then change_basis pp qc1 Y row_next columns_to_use
                 else Inr qc1) (\<lambda>qc2.
        then_do (emit_cx pp qc2 row row_next columns_to_use) (\<lambda>qc3.
        then_do (collect (\<lambda>col. case subscript pp col of
                                   Inl e \<Rightarrow> Inl e
                                 | Inr gadget \<Rightarrow> gadget_item gadget row_next) columns_to_use)
          (\<lambda>next_paulis.
        bind_run (p_recurse env topo pp fuel
                    (map fst (filter (\<lambda>(col, p). p = Z) (zip columns_to_use next_paulis)))
                    remaining_qubits row_next Z perm_gadgets) (\<lambda>(qc_z, perm_z).
        bind_run (p_recurse env topo pp fuel
                    (map fst (filter (\<lambda>(col, p). p = Y) (zip columns_to_use next_paulis)))
                    remaining_qubits row_next Y perm_z) (\<lambda>(qc_y, perm_y).
        Some (Inr (qc3 @ qc_z @ qc_y @ [cx_gate row row_next] @ restore_basis rec_type row
                     @ (if rec_type_next_1 = X \<and> rec_type_next_2 = Y then [h_gate row_next]
                        else if rec_type_next_1 = X \<and> rec_type_next_2 = Z then [v_gate row_next]
                        else []),
                   perm_y)))))))))"
| "simplify_one_p env topo pp 0 columns_to_use remaining_qubits row rec_type row_next
     rec_type_next perm_gadgets = None"
| "simplify_one_p env topo pp (Suc fuel) columns_to_use remaining_qubits row rec_type row_next
     rec_type_next perm_gadgets =
     (if length columns_to_use = 0 then Some (Inr ([], perm_gadgets))
      else
        then_do (change_basis pp [] rec_type row columns_to_use) (\<lambda>qc1.
        then_do (change_basis pp qc1 rec_type_next row_next columns_to_use) (\<lambda>qc2.
        then_do (emit_cx pp qc2 row row_next columns_to_use) (\<lambda>qc3.
        bind_run (p_recurse env topo pp fuel columns_to_use remaining_qubits row_next Z
                    perm_gadgets) (\<lambda>(qc_next, perm_next).
        Some (Inr (qc3 @ qc_next @ [cx_gate row row_next] @ restore_basis rec_type row
                     @ restore_basis rec_type_next row_next,
                   perm_next)))))))"
  by pat_completeness auto

termination
  by (relation "measure (\<lambda>x. case x of
          Inl (Inl (env, topo, pp, fuel, r)) \<Rightarrow> fuel
        | Inl (Inr (env, topo, pp, fuel, r)) \<Rightarrow> fuel
        | Inr (Inl (env, topo, pp, fuel, r)) \<Rightarrow> fuel
        | Inr (Inr (Inl (env, topo, pp, fuel, r))) \<Rightarrow> fuel
        | Inr (Inr (Inr (env, topo, pp, fuel, r))) \<Rightarrow> fuel)")
    simp_all

text \<open>
  The dictionary \<open>permutation\<close> maps every qubit to itself and is read once, at the end; a key
  that it lacks would raise \<open>KeyError\<close>.
\<close>

definition pauli_polynomial_steiner_gray_nc ::
  "collaborators \<Rightarrow> nat \<Rightarrow> PauliPolynomial \<Rightarrow> Topology
     \<Rightarrow> (error + PauliCircuit \<times> nat list \<times> nat list) option" where
  "pauli_polynomial_steiner_gray_nc env fuel pp topo =
     (let remaining_columns = [0..<length (pauli_gadgets pp)];
          permutation = map_of (map (\<lambda>k. (k, k)) [0..<num_qubits pp])
      in bind_run (identity_recurse env topo pp fuel remaining_columns [0..<num_qubits pp] [])
           (\<lambda>(circ_out, perm_gadgets).
              then_do (collect (\<lambda>i. case permutation i of
                                       None \<Rightarrow> Inl KeyError | Some k \<Rightarrow> Inr k)
                         [0..<num_qubits pp])
                (\<lambda>permutation_list. Some (Inr (circ_out, perm_gadgets, permutation_list)))))"

subsection \<open>Which calls return\<close>

lemma propagate_columns_raises [simp]: "propagate_columns pp gate columns_to_use = Inl TypeError"
  by (simp add: propagate_columns_def)

lemma subscript_raises [simp]: "subscript pp l = Inl TypeError"
  by (simp add: subscript_def)

lemma emit_cx_raises [simp]: "emit_cx pp qc control target columns_to_use = Inl TypeError"
  by (simp add: emit_cx_def)

lemma then_do_simps [simp]:
  "then_do (Inl e) f = Some (Inl e)"
  "then_do (Inr a) f = f a"
  by (simp_all add: then_do_def)

lemma bind_run_simps [simp]:
  "bind_run None f = None"
  "bind_run (Some (Inl e)) f = Some (Inl e)"
  "bind_run (Some (Inr a)) f = f a"
  by (simp_all add: bind_run_def)

lemma then_do_Inr_iff:
  "then_do m f = Some (Inr r) \<longleftrightarrow> (\<exists>a. m = Inr a \<and> f a = Some (Inr r))"
  by (cases m) simp_all

lemma bind_run_Inr_iff:
  "bind_run m f = Some (Inr r) \<longleftrightarrow> (\<exists>a. m = Some (Inr a) \<and> f a = Some (Inr r))"
proof (cases m)
  case None
  then show ?thesis by simp
next
  case (Some s)
  then show ?thesis by (cases s) simp_all
qed

lemma update_gadget_single_column_Inr:
  "update_gadget_single_column pp qc q p columns_to_use = Inr qc1 \<Longrightarrow> qc1 = qc"
  by (cases p) (simp_all add: update_gadget_single_column_def)

lemma update_single_qubits_Inr:
  "update_single_qubits env pp c qubits columns_to_use = Inr c1 \<Longrightarrow> c1 = c"
proof (induction qubits arbitrary: c)
  case Nil
  then show ?case by simp
next
  case (Cons q qubits)
  then show ?case
    by (auto split: sum.splits option.splits dest: update_gadget_single_column_Inr)
qed

lemma update_pair_loop_Inr:
  "update_pair_loop pp c edges columns_to_use qubit_pairs non_visited_qubits = Inr c1 \<Longrightarrow> c1 = c"
  by (subst (asm) update_pair_loop.simps)
     (auto split: option.splits prod.splits if_splits sum.splits)

lemma update_pair_qubits_Inr:
  "update_pair_qubits pp c topology qubits columns_to_use = Inr c1 \<Longrightarrow> c1 = c"
  by (auto simp: update_pair_qubits_def split: sum.splits dest: update_pair_loop_Inr)

lemma change_basis_Inr:
  "change_basis pp qc rec_type row columns_to_use = Inr qc1 \<Longrightarrow> qc1 = qc"
  by (auto simp: change_basis_def split: if_splits)

lemma check_identity_Inr:
  "check_identity env topo pp fuel columns_to_use remaining_qubits row row_next rec_type
       perm_gadgets = Some (Inr r) \<Longrightarrow> columns_to_use = [] \<and> r = ([], perm_gadgets)"
  by (cases fuel) (auto simp: then_do_Inr_iff split: if_splits)

lemma simplify_twp_p_Inr:
  "simplify_twp_p env topo pp fuel columns_to_use remaining_qubits row rec_type row_next
       rec_type_next_1 rec_type_next_2 perm_gadgets = Some (Inr r)
     \<Longrightarrow> columns_to_use = [] \<and> r = ([], perm_gadgets)"
  by (cases fuel) (auto simp: then_do_Inr_iff split: if_splits)

lemma simplify_one_p_Inr:
  "simplify_one_p env topo pp fuel columns_to_use remaining_qubits row rec_type row_next
       rec_type_next perm_gadgets = Some (Inr r)
     \<Longrightarrow> columns_to_use = [] \<and> r = ([], perm_gadgets)"
  by (cases fuel) (auto simp: then_do_Inr_iff split: if_splits)

subsection \<open>The columns of a partition\<close>

lemma partition_mset:
  "partition_pauli_polynomial pp row columns_to_use = Inr (col_i, col_x, col_y, col_z) \<Longrightarrow>
     mset col_i + mset col_x + mset col_y + mset col_z = mset columns_to_use"
proof (induction columns_to_use arbitrary: col_i col_x col_y col_z)
  case Nil
  then show ?case by simp
next
  case (Cons col columns_to_use)
  then show ?case by (auto split: sum.splits prod.splits Pauli.splits)
qed

lemma partition_2_mset:
  "partition_pauli_polynomial_2 pp row columns_to_use = Inr (col_i, t1, t2, cols_2, t3, col1) \<Longrightarrow>
     mset col_i + mset cols_2 + mset col1 = mset columns_to_use"
proof -
  assume a: "partition_pauli_polynomial_2 pp row columns_to_use
      = Inr (col_i, t1, t2, cols_2, t3, col1)"
  then obtain col_x col_y col_z where
    p: "partition_pauli_polynomial pp row columns_to_use = Inr (col_i, col_x, col_y, col_z)"
    and r: "(cols_2, col1) = (col_x @ col_y, col_z) \<or> (cols_2, col1) = (col_x @ col_z, col_y)
      \<or> (cols_2, col1) = (col_y @ col_z, col_x)"
    by (auto simp: partition_pauli_polynomial_2_def Let_def
        split: sum.splits prod.splits if_splits)
  from partition_mset [OF p]
  have "mset columns_to_use = mset col_i + mset col_x + mset col_y + mset col_z" by simp
  with r show ?thesis by (auto simp: ac_simps)
qed

subsection \<open>The rotations of a circuit\<close>

fun rotations :: "PauliCircuit \<Rightarrow> real list" where
  "rotations [] = []"
| "rotations (rz_gate a q # qc) = a # rotations qc"
| "rotations (g # qc) = rotations qc"

lemma rotations_append [simp]: "rotations (qc1 @ qc2) = rotations qc1 @ rotations qc2"
  by (induction qc1 rule: rotations.induct) simp_all

lemma rotations_inverse_empty [simp]: "rotations (inverse_circuit []) = []"
  by (simp add: inverse_circuit_def)

fun single_qubit :: "Instruction \<Rightarrow> bool" where
  "single_qubit (cx_gate control target) = False"
| "single_qubit g = True"

text \<open>
  \<open>consumed pp cols perm qc perm1\<close>: the list \<open>perm1\<close> is \<open>perm\<close> followed by the columns
  \<open>cols\<close>, each once, in some order, the rotations of the circuit \<open>qc\<close> are the angles of
  these columns, in that order, and the circuit has no gate on two qubits.
\<close>

definition consumed ::
  "PauliPolynomial \<Rightarrow> nat list \<Rightarrow> nat list \<Rightarrow> PauliCircuit \<Rightarrow> nat list \<Rightarrow> bool" where
  "consumed pp cols perm qc perm1 \<longleftrightarrow>
     take (length perm) perm1 = perm \<and>
     mset (drop (length perm) perm1) = mset cols \<and>
     rotations qc = map (\<lambda>col. angle (pauli_gadgets pp ! col)) (drop (length perm) perm1) \<and>
     list_all single_qubit qc"

lemma consumedI:
  "perm1 = perm @ new \<Longrightarrow> mset new = mset cols \<Longrightarrow>
     rotations qc = map (\<lambda>col. angle (pauli_gadgets pp ! col)) new \<Longrightarrow>
     list_all single_qubit qc \<Longrightarrow>
     consumed pp cols perm qc perm1"
  by (simp add: consumed_def)

lemma consumedE:
  assumes "consumed pp cols perm qc perm1"
  obtains new where "perm1 = perm @ new" "mset new = mset cols"
    "rotations qc = map (\<lambda>col. angle (pauli_gadgets pp ! col)) new"
    "list_all single_qubit qc"
proof -
  from assms have "perm1 = perm @ drop (length perm) perm1"
    by (metis append_take_drop_id consumed_def)
  with assms that show thesis by (simp add: consumed_def)
qed

lemma consumed_nothing [simp]: "consumed pp [] perm [] perm"
  by (simp add: consumed_def)

lemma consumed_then:
  assumes "consumed pp cols1 perm qc1 perm1" "consumed pp cols2 perm1 qc2 perm2"
  shows "consumed pp (cols1 @ cols2) perm (qc1 @ qc2) perm2"
proof -
  from assms(1) obtain new1 where 1: "perm1 = perm @ new1" "mset new1 = mset cols1"
    "rotations qc1 = map (\<lambda>col. angle (pauli_gadgets pp ! col)) new1"
    "list_all single_qubit qc1" by (rule consumedE)
  from assms(2) obtain new2 where 2: "perm2 = perm1 @ new2" "mset new2 = mset cols2"
    "rotations qc2 = map (\<lambda>col. angle (pauli_gadgets pp ! col)) new2"
    "list_all single_qubit qc2" by (rule consumedE)
  show ?thesis
  proof (rule consumedI)
    show "perm2 = perm @ (new1 @ new2)" using 1(1) 2(1) by simp
    show "mset (new1 @ new2) = mset (cols1 @ cols2)" using 1(2) 2(2) by simp
    show "rotations (qc1 @ qc2) = map (\<lambda>col. angle (pauli_gadgets pp ! col)) (new1 @ new2)"
      using 1(3) 2(3) by simp
    show "list_all single_qubit (qc1 @ qc2)" using 1(4) 2(4) by simp
  qed
qed

lemma consumed_mset:
  "consumed pp cols perm qc perm1 \<Longrightarrow> mset cols = mset cols1 \<Longrightarrow> consumed pp cols1 perm qc perm1"
  by (simp add: consumed_def)

lemma collect_rotations:
  "collect (\<lambda>col. if col < length (pauli_gadgets pp)
                   then Inr (rz_gate (angle (pauli_gadgets pp ! col)) row)
                   else Inl IndexError) cols = Inr rs \<Longrightarrow>
     rotations rs = map (\<lambda>col. angle (pauli_gadgets pp ! col)) cols \<and> list_all single_qubit rs"
proof (induction cols arbitrary: rs)
  case Nil
  then show ?case by simp
next
  case (Cons col cols)
  then show ?case by (auto split: if_splits sum.splits)
qed

lemma apply_rotation_consumed:
  assumes "apply_rotation pp perm cols row rec_type = Inr (qc, perm1)"
  shows "consumed pp cols perm qc perm1"
proof -
  from assms obtain rs where rs: "collect (\<lambda>col. if col < length (pauli_gadgets pp)
                   then Inr (rz_gate (angle (pauli_gadgets pp ! col)) row)
                   else Inl IndexError) cols = Inr rs"
    and qc: "qc = (if rec_type = X then [h_gate row] else if rec_type = Y then [v_gate row] else [])
                 @ rs
                 @ (if rec_type = X then [h_gate row] else if rec_type = Y then [vdg_gate row] else [])"
    and perm1: "perm1 = perm @ cols"
    by (auto simp: apply_rotation_def split: sum.splits)
  from collect_rotations [OF rs]
  have "rotations qc = map (\<lambda>col. angle (pauli_gadgets pp ! col)) cols \<and> list_all single_qubit qc"
    unfolding qc by simp
  with perm1 show ?thesis by (intro consumedI [where new = cols]) simp_all
qed

subsection \<open>Every column once, in the order of the rotations\<close>

lemma if_raise_Inr_iff:
  "(if c then Some (Inl e) else m) = Some (Inr r) \<longleftrightarrow> \<not> c \<and> m = Some (Inr r)"
  by simp

lemma identity_recurse_step:
  assumes IHi: "\<And>cols qubits perm qc perm1.
      identity_recurse env topo pp n cols qubits perm = Some (Inr (qc, perm1)) \<Longrightarrow>
        consumed pp cols perm qc perm1"
    and IHp: "\<And>cols qubits row rec_type perm qc perm1.
      p_recurse env topo pp n cols qubits row rec_type perm = Some (Inr (qc, perm1)) \<Longrightarrow>
        consumed pp cols perm qc perm1"
    and run: "identity_recurse env topo pp (Suc n) cols qubits perm = Some (Inr (qc, perm1))"
  shows "consumed pp cols perm qc perm1"
proof (cases "cols = []")
  case True
  with run show ?thesis by simp
next
  case False
  let ?rest = "\<lambda>row. filter (\<lambda>q. q \<noteq> row) qubits"
  from run False obtain qc_single qc_diag row pp_i pp_x pp_y pp_z
      qc_i perm_i qc_x perm_x qc_y perm_y qc_z where
    single: "update_single_qubits env pp [] qubits cols = Inr qc_single"
    and pair: "update_pair_qubits pp qc_single topo qubits cols = Inr qc_diag"
    and part: "partition_pauli_polynomial pp row cols = Inr (pp_i, pp_x, pp_y, pp_z)"
    and ri: "(if ?rest row \<noteq> []
              then identity_recurse env topo pp n pp_i (?rest row) perm
              else Some (apply_rotation pp perm pp_i row I)) = Some (Inr (qc_i, perm_i))"
    and rx: "p_recurse env topo pp n pp_x (?rest row) row X perm_i = Some (Inr (qc_x, perm_x))"
    and ry: "p_recurse env topo pp n pp_y (?rest row) row Y perm_x = Some (Inr (qc_y, perm_y))"
    and rz: "p_recurse env topo pp n pp_z (?rest row) row Z perm_y = Some (Inr (qc_z, perm1))"
    and out: "qc = inverse_circuit qc_diag @ qc_i @ qc_x @ qc_y @ qc_z @ qc_diag"
    by (simp add: then_do_Inr_iff bind_run_Inr_iff split: prod.splits) blast
  from single have "qc_single = []" by (rule update_single_qubits_Inr)
  with pair have diag: "qc_diag = []" by (auto dest: update_pair_qubits_Inr)
  have ci: "consumed pp pp_i perm qc_i perm_i"
  proof (cases "?rest row \<noteq> []")
    case True
    with ri show ?thesis by (simp add: IHi)
  next
    case False
    with ri show ?thesis by (simp add: apply_rotation_consumed)
  qed
  from rx have cx: "consumed pp pp_x perm_i qc_x perm_x" by (rule IHp)
  from ry have cy: "consumed pp pp_y perm_x qc_y perm_y" by (rule IHp)
  from rz have cz: "consumed pp pp_z perm_y qc_z perm1" by (rule IHp)
  from consumed_then [OF consumed_then [OF consumed_then [OF ci cx] cy] cz]
  have "consumed pp (((pp_i @ pp_x) @ pp_y) @ pp_z) perm (((qc_i @ qc_x) @ qc_y) @ qc_z) perm1" .
  moreover from partition_mset [OF part]
  have "mset (((pp_i @ pp_x) @ pp_y) @ pp_z) = mset cols" by (simp add: ac_simps)
  ultimately have "consumed pp cols perm (((qc_i @ qc_x) @ qc_y) @ qc_z) perm1"
    by (rule consumed_mset)
  then show ?thesis unfolding out diag by (simp add: consumed_def inverse_circuit_def)
qed

lemma p_recurse_step:
  assumes IHi: "\<And>cols qubits perm qc perm1.
      identity_recurse env topo pp n cols qubits perm = Some (Inr (qc, perm1)) \<Longrightarrow>
        consumed pp cols perm qc perm1"
    and run: "p_recurse env topo pp (Suc n) cols qubits row rec_type perm = Some (Inr (qc, perm1))"
  shows "consumed pp cols perm qc perm1"
proof -
  from run have t: "rec_type \<noteq> I" by (auto split: if_splits)
  show ?thesis
  proof (cases "cols = []")
    case True
    with run t show ?thesis by simp
  next
    case False
    show ?thesis
    proof (cases "qubits = []")
      case True
      with run t False show ?thesis by (simp add: apply_rotation_consumed)
    next
      case qubits: False
      let ?rest = "\<lambda>row_next. filter (\<lambda>q. q \<noteq> row_next) qubits"
      from run t False qubits obtain row_next pp_i t_pp2_1 tpp2_2 pp2 t_p1 pp1
          qc_i perm_i qc_two perm_two qc_one where
        part: "partition_pauli_polynomial_2 pp row_next cols
            = Inr (pp_i, t_pp2_1, tpp2_2, pp2, t_p1, pp1)"
        and ri: "(if \<not> is_cutting env row_next (qubits @ [row]) (to_nx topo)
                  then identity_recurse env topo pp n pp_i (?rest row_next @ [row]) perm
                  else check_identity env topo pp n pp_i (?rest row_next) row row_next rec_type
                         perm) = Some (Inr (qc_i, perm_i))"
        and two: "simplify_twp_p env topo pp n pp2 (?rest row_next) row rec_type row_next
            t_pp2_1 tpp2_2 perm_i = Some (Inr (qc_two, perm_two))"
        and one: "simplify_one_p env topo pp n pp1 (?rest row_next) row rec_type row_next
            t_p1 perm_two = Some (Inr (qc_one, perm1))"
        and out: "qc = inverse_circuit [] @ qc_i @ qc_two @ qc_one"
        by (simp add: then_do_Inr_iff bind_run_Inr_iff if_raise_Inr_iff split: prod.splits) blast
      have ci: "consumed pp pp_i perm qc_i perm_i"
      proof (cases "is_cutting env row_next (qubits @ [row]) (to_nx topo)")
        case True
        with ri check_identity_Inr
            [of env topo pp n pp_i "?rest row_next" row row_next rec_type perm "(qc_i, perm_i)"]
        show ?thesis by simp
      next
        case False
        with ri show ?thesis by (simp add: IHi)
      qed
      from simplify_twp_p_Inr [OF two] have c2: "consumed pp pp2 perm_i qc_two perm_two" by simp
      from simplify_one_p_Inr [OF one] have c1: "consumed pp pp1 perm_two qc_one perm1" by simp
      from consumed_then [OF consumed_then [OF ci c2] c1]
      have "consumed pp ((pp_i @ pp2) @ pp1) perm ((qc_i @ qc_two) @ qc_one) perm1" .
      moreover from partition_2_mset [OF part]
      have "mset ((pp_i @ pp2) @ pp1) = mset cols" by (simp add: ac_simps)
      ultimately have "consumed pp cols perm ((qc_i @ qc_two) @ qc_one) perm1"
        by (rule consumed_mset)
      then show ?thesis unfolding out by (simp add: consumed_def inverse_circuit_def)
    qed
  qed
qed

lemma recursion_consumed:
  "(\<forall>cols qubits perm qc perm1.
      identity_recurse env topo pp n cols qubits perm = Some (Inr (qc, perm1)) \<longrightarrow>
        consumed pp cols perm qc perm1) \<and>
   (\<forall>cols qubits row rec_type perm qc perm1.
      p_recurse env topo pp n cols qubits row rec_type perm = Some (Inr (qc, perm1)) \<longrightarrow>
        consumed pp cols perm qc perm1)"
proof (induction n)
  case 0
  show ?case by simp
next
  case (Suc n)
  then have IHi: "\<And>cols qubits perm qc perm1.
      identity_recurse env topo pp n cols qubits perm = Some (Inr (qc, perm1)) \<Longrightarrow>
        consumed pp cols perm qc perm1"
    and IHp: "\<And>cols qubits row rec_type perm qc perm1.
      p_recurse env topo pp n cols qubits row rec_type perm = Some (Inr (qc, perm1)) \<Longrightarrow>
        consumed pp cols perm qc perm1"
    by blast+
  show ?case
  proof (intro conjI allI impI)
    fix cols qubits perm qc perm1
    assume "identity_recurse env topo pp (Suc n) cols qubits perm = Some (Inr (qc, perm1))"
    with IHi IHp show "consumed pp cols perm qc perm1" by (rule identity_recurse_step)
  next
    fix cols qubits row rec_type perm qc perm1
    assume "p_recurse env topo pp (Suc n) cols qubits row rec_type perm = Some (Inr (qc, perm1))"
    with IHi show "consumed pp cols perm qc perm1" by (rule p_recurse_step)
  qed
qed

lemma identity_recurse_consumed:
  "identity_recurse env topo pp n cols qubits perm = Some (Inr (qc, perm1)) \<Longrightarrow>
     consumed pp cols perm qc perm1"
  using recursion_consumed by blast

subsection \<open>The permutation of the qubits\<close>

lemma collect_all_Inr:
  "\<forall>x \<in> set xs. f x = Inr (g x) \<Longrightarrow> collect f xs = Inr (map g xs)"
  by (induction xs) simp_all

lemma map_of_diagonal: "i \<in> set ks \<Longrightarrow> map_of (map (\<lambda>k. (k, k)) ks) i = Some i"
  by (induction ks) auto

lemma permutation_list:
  "collect (\<lambda>i. case map_of (map (\<lambda>k. (k, k)) [0..<n]) i of
                   None \<Rightarrow> Inl KeyError | Some k \<Rightarrow> Inr k) [0..<n] = Inr [0..<n]"
proof -
  have "collect (\<lambda>i. case map_of (map (\<lambda>k. (k, k)) [0..<n]) i of
                   None \<Rightarrow> Inl KeyError | Some k \<Rightarrow> Inr k) [0..<n] = Inr (map (\<lambda>i. i) [0..<n])"
    by (rule collect_all_Inr) (simp add: map_of_diagonal)
  then show ?thesis by simp
qed

lemma synthesis_Inr:
  assumes "pauli_polynomial_steiner_gray_nc env fuel pp topo
      = Some (Inr (circ_out, perm_gadgets, permutation))"
  shows "identity_recurse env topo pp fuel [0..<length (pauli_gadgets pp)] [0..<num_qubits pp] []
      = Some (Inr (circ_out, perm_gadgets))"
    and "permutation = [0..<num_qubits pp]"
  using assms
  by (auto simp: pauli_polynomial_steiner_gray_nc_def Let_def bind_run_Inr_iff then_do_Inr_iff
      permutation_list simp del: map_map)

subsection \<open>Where the topology couples two qubits\<close>






text \<open>A run that returns has put no \<open>cx\<close> into its circuit.\<close>

lemma returned_circuit_has_no_cx:
  assumes "pauli_polynomial_steiner_gray_nc env fuel pp topo
      = Some (Inr (circ_out, perm_gadgets, permutation))"
  shows "list_all single_qubit circ_out"
  using identity_recurse_consumed [OF synthesis_Inr(1) [OF assms]] by (simp add: consumed_def)

subsection \<open>Two runs\<close>

text \<open>
  Collaborators for the examples: no qubit has a common Pauli or cuts the graph.
\<close>

definition plain :: collaborators where
  "plain = \<lparr>find_common_paulis = (\<lambda>q pp. Inr None),
            is_cutting = (\<lambda>q nodes edges. False),
            neighbors = (\<lambda>nodes edges row.
              Inr (remdups (concat (map (\<lambda>(u, v).
                (if u = row \<and> v \<in> set nodes then [v] else []) @
                (if v = row \<and> u \<in> set nodes then [u] else [])) edges)))),
            propagate_pauli = (\<lambda>gate gadget. gadget)\<rparr>"

text \<open>The topology of one qubit, and that of two coupled qubits.\<close>

definition one_qubit :: Topology where
  "one_qubit = \<lparr>dist_of = (\<lambda>u v. 0), shortest_path = (\<lambda>u v. [u]), to_nx = []\<rparr>"


definition z_then_x :: PauliPolynomial where
  "z_then_x = \<lparr>num_qubits = 1,
               pauli_gadgets = [\<lparr>angle = 1, paulis = [Z]\<rparr>, \<lparr>angle = 2, paulis = [X]\<rparr>]\<rparr>"


lemma update_pair_loop_None:
  "update_pair_loop pp c edges columns_to_use None non_visited_qubits = Inr c"
  by (subst update_pair_loop.simps) simp

lemma z_then_x_recursion:
  "identity_recurse plain one_qubit z_then_x (Suc (Suc 0)) [0, 1] [0] []
     = Some (Inr ([h_gate 0, rz_gate 2 0, h_gate 0, rz_gate 1 0], [1, 0]))"
  by (simp add: plain_def one_qubit_def z_then_x_def update_pair_qubits_def
      update_pair_loop_None pick_row_def pauli_at_def gadget_item_def score_def
      apply_rotation_def inverse_circuit_def)

lemma z_then_x_run:
  "pauli_polynomial_steiner_gray_nc plain 2 z_then_x one_qubit
     = Some (Inr ([h_gate 0, rz_gate 2 0, h_gate 0, rz_gate 1 0], [1, 0], [0]))"
proof -
  have g: "[0..<length (pauli_gadgets z_then_x)] = [0, 1]" by (simp add: z_then_x_def)
  have q: "[0..<num_qubits z_then_x] = [0]" by (simp add: z_then_x_def)
  have f: "(2::nat) = Suc (Suc 0)" by simp
  show ?thesis
    unfolding pauli_polynomial_steiner_gray_nc_def Let_def g q f z_then_x_recursion
    by simp
qed

text \<open>
  C2: when the synthesis returns, \<open>perm_gadgets\<close> holds every column of the polynomial,
  \<open>0\<close> to \<open>num_gadgets - 1\<close>, exactly once, and it is the order of the rotations of the
  returned circuit: the angles of the \<open>rz\<close> gates, read from left to right, are the angles
  of the gadgets \<open>perm_gadgets[0]\<close>, \<open>perm_gadgets[1]\<close>, and so on.
\<close>

theorem perm_gadgets_every_column_once:
  "pauli_polynomial_steiner_gray_nc env fuel pp topo
       = Some (Inr (circ_out, perm_gadgets, permutation)) \<Longrightarrow>
     distinct perm_gadgets \<and>
     set perm_gadgets = {0..<length (pauli_gadgets pp)} \<and>
     length perm_gadgets = length (pauli_gadgets pp) \<and>
     rotations circ_out = map (\<lambda>col. angle (pauli_gadgets pp ! col)) perm_gadgets"
proof -
  assume run: "pauli_polynomial_steiner_gray_nc env fuel pp topo
       = Some (Inr (circ_out, perm_gadgets, permutation))"
  let ?n = "length (pauli_gadgets pp)"
  from run have "identity_recurse env topo pp fuel [0..<?n] [0..<num_qubits pp] []
      = Some (Inr (circ_out, perm_gadgets))"
    by (rule synthesis_Inr(1))
  then have "consumed pp [0..<?n] [] circ_out perm_gadgets"
    by (rule identity_recurse_consumed)
  then have m: "mset perm_gadgets = mset [0..<?n]"
    and r: "rotations circ_out = map (\<lambda>col. angle (pauli_gadgets pp ! col)) perm_gadgets"
    by (simp_all add: consumed_def)
  from m have "distinct perm_gadgets \<longleftrightarrow> distinct [0..<?n]" by (rule mset_eq_imp_distinct_iff)
  then have "distinct perm_gadgets" by simp
  moreover from m have "set perm_gadgets = set [0..<?n]" by (rule mset_eq_setD)
  moreover from m have "length perm_gadgets = length [0..<?n]" by (rule mset_eq_length)
  ultimately show ?thesis using r by simp
qed

text \<open>
  On one qubit, the gadget \<open>[Z]\<close> of angle 1 followed by the gadget \<open>[X]\<close> of angle 2: the
  synthesis returns, the rotation of the second gadget comes first, and \<open>perm_gadgets\<close> is
  \<open>[1, 0]\<close>.
\<close>

theorem perm_gadgets_every_column_once_witness:
  "pauli_polynomial_steiner_gray_nc plain 2 z_then_x one_qubit
     = Some (Inr ([h_gate 0, rz_gate 2 0, h_gate 0, rz_gate 1 0], [1, 0], [0])) \<and>
   distinct [1, 0::nat] \<and>
   set [1, 0::nat] = {0..<length (pauli_gadgets z_then_x)} \<and>
   rotations [h_gate 0, rz_gate 2 0, h_gate 0, rz_gate 1 0]
     = map (\<lambda>col. angle (pauli_gadgets z_then_x ! col)) [1, 0]"
  using perm_gadgets_every_column_once [OF z_then_x_run] z_then_x_run by simp

text \<open>
  C9: when the synthesis returns, the permutation that it returns is the list
  \<open>[0, 1, ..., num_qubits - 1]\<close>, which maps every qubit to itself.
\<close>

theorem identity_permutation_returned:
  "pauli_polynomial_steiner_gray_nc env fuel pp topo
       = Some (Inr (circ_out, perm_gadgets, permutation)) \<Longrightarrow>
     permutation = [0..<num_qubits pp] \<and>
     length permutation = num_qubits pp \<and>
     (\<forall>i. i < num_qubits pp \<longrightarrow> permutation ! i = i)"
proof -
  assume "pauli_polynomial_steiner_gray_nc env fuel pp topo
       = Some (Inr (circ_out, perm_gadgets, permutation))"
  then have "permutation = [0..<num_qubits pp]" by (rule synthesis_Inr(2))
  then show ?thesis by simp
qed

theorem identity_permutation_returned_witness:
  "pauli_polynomial_steiner_gray_nc plain 2 z_then_x one_qubit
     = Some (Inr ([h_gate 0, rz_gate 2 0, h_gate 0, rz_gate 1 0], [1, 0], [0])) \<and>
   [0::nat] = [0..<num_qubits z_then_x]"
  using identity_permutation_returned [OF z_then_x_run] z_then_x_run by simp


end
